theory Spec2Isabelle
  imports Main "HOL-Library.Word" "HOL-Library.Multiset"
begin

section \<open>The sub-encoder of \<^verbatim>\<open>subencode.py\<close>\<close>

text \<open>
  The program splits the value \<open>X = (initial - chunk) mod 2^32\<close> into \<open>div\<close> 32-bit
  components whose bytes all come from a string of good bytes, so that subtracting the
  components from \<open>initial\<close> gives \<open>chunk\<close>. Python integers are unbounded and are
  modelled as \<open>int\<close>; a \<^verbatim>\<open>bytes\<close> object is a list of 8-bit words; every
  \<^verbatim>\<open>raise\<close> is a value of the type \<open>error\<close>.
\<close>

subsection \<open>Exceptions and the global name \<^verbatim>\<open>mod\<close>\<close>

datatype error =
    EncodingFailure
  | DivisionFailed
  | BiggerDivision int
  | NameError
  | ValueError
  | ZeroDivisionError
  | IndexError
  | StructError

type_synonym bytes = "8 word list"

text \<open>
  Line 53 of the source tests \<^verbatim>\<open>mod == 0\<close>, but the function's remainder is the local
  \<^verbatim>\<open>m\<close>; the file never assigns \<^verbatim>\<open>mod\<close>. The name is therefore looked up among the
  module's globals, which line 2 fills with \<^verbatim>\<open>from pwn import *\<close>. That library is not
  part of the repository, so the outcome of the lookup is a parameter of the model:
  \<^item> \<open>Unbound\<close>: the import provides no such name, and the test raises \<^verbatim>\<open>NameError\<close>;
  \<^item> \<open>Nonzero\<close>: the import binds the name to a value that is not equal to 0 (a
    module object, such as the reference to itself that pwntools' packing module has
    kept under this name, is not equal to 0);
  \<^item> \<open>Zero\<close>: the name is bound to a value equal to 0.
  Every theorem below says which of the three it covers.
\<close>

datatype binding = Unbound | Nonzero | Zero

definition mod_eq_0 :: "binding \<Rightarrow> error + bool" where
  "mod_eq_0 b = (case b of Unbound \<Rightarrow> Inl NameError | Nonzero \<Rightarrow> Inr False | Zero \<Rightarrow> Inr True)"

text \<open>
  \<^verbatim>\<open>v in good_bytes\<close> for an integer \<open>v\<close> and a \<^verbatim>\<open>bytes\<close> object: Python raises
  \<^verbatim>\<open>ValueError\<close> when \<open>v\<close> is not in \<open>range(0, 256)\<close>.
\<close>

definition contains :: "bytes \<Rightarrow> int \<Rightarrow> error + bool" where
  "contains good_bytes v =
     (if 0 \<le> v \<and> v < 256 then Inr (v \<in> set (map uint good_bytes)) else Inl ValueError)"

text \<open>\<^verbatim>\<open>mod == 0 and v in good_bytes\<close>: the right operand is evaluated only when the left holds.\<close>

definition no_modulos :: "binding \<Rightarrow> bytes \<Rightarrow> int \<Rightarrow> error + bool" where
  "no_modulos b good_bytes v =
     (case mod_eq_0 b of
        Inl e \<Rightarrow> Inl e
      | Inr False \<Rightarrow> Inr False
      | Inr True \<Rightarrow> contains good_bytes v)"

subsection \<open>\<^verbatim>\<open>check_div\<close>\<close>

text \<open>
  \<^verbatim>\<open>itertools.combinations_with_replacement(xs, n)\<close>: the \<open>n\<close>-tuples of elements of
  \<open>xs\<close> at non-decreasing positions, in lexicographic order of the positions.
\<close>

fun combinations_with_replacement :: "'a list \<Rightarrow> nat \<Rightarrow> 'a list list" where
  "combinations_with_replacement xs 0 = [[]]"
| "combinations_with_replacement [] (Suc n) = []"
| "combinations_with_replacement (x # xs) (Suc n) =
     map ((#) x) (combinations_with_replacement (x # xs) n)
     @ combinations_with_replacement xs (Suc n)"

text \<open>
  The two nested loops of lines 61 to 69: the candidates \<open>(split, offset_list)\<close> in the
  order the loops visit them, and the values returned for the first one whose offsets
  sum to \<open>m\<close>.
\<close>

definition candidates :: "int list \<Rightarrow> int \<Rightarrow> (nat \<times> int list) list" where
  "candidates offsets d =
     concat (map (\<lambda>split. map (Pair split) (combinations_with_replacement offsets split))
                 [1 ..< nat d])"

definition find_split :: "int \<Rightarrow> int \<Rightarrow> int \<Rightarrow> int list \<Rightarrow> int list option" where
  "find_split v m d offsets =
     (case List.find (\<lambda>(split, offset_list). sum_list offset_list = m) (candidates offsets d) of
        None \<Rightarrow> None
      | Some (split, offset_list) \<Rightarrow>
          Some (map (\<lambda>offset. v + offset) offset_list @ replicate (nat (d - int split)) v))"

function check_div :: "binding \<Rightarrow> int \<Rightarrow> int \<Rightarrow> bytes \<Rightarrow> int \<Rightarrow> bool \<Rightarrow> error + (int \<times> int list)" where
  "check_div b x d good_bytes carry recurse =
     (if d = 0 then Inl ZeroDivisionError
      else
        let v = x div d; m = x mod d in
        if v \<ge> 256 then Inl DivisionFailed
        else
          case no_modulos b good_bytes v of
            Inl e \<Rightarrow> Inl e
          | Inr True \<Rightarrow> Inr (carry, replicate (nat d) v)
          | Inr False \<Rightarrow>
              (case contains good_bytes v of
                 Inl e \<Rightarrow> Inl e
               | Inr member \<Rightarrow>
                   (case (if member
                          then find_split v m d (map (\<lambda>c. uint c - v) good_bytes)
                          else None) of
                      Some values \<Rightarrow> Inr (carry, values)
                    | None \<Rightarrow>
                        if recurse then Inl DivisionFailed
                        else check_div b (x + 256) d good_bytes (carry + 1) True)))"
  by pat_completeness auto
termination
  by (relation "measure (\<lambda>(b, x, d, good_bytes, carry, recurse). if recurse then 0 else 1)") auto

declare check_div.simps [simp del]

subsection \<open>\<^verbatim>\<open>encode_byte\<close>\<close>

text \<open>
  The loop \<^verbatim>\<open>for div in range(start_div, max_div & 0xFFFFFFFF)\<close>, entered at \<open>d\<close>
  with the upper end \<open>hi\<close>; its \<^verbatim>\<open>else\<close> branch raises \<^verbatim>\<open>EncodingFailure\<close>. Only
  \<^verbatim>\<open>DivisionFailed\<close> is caught.
\<close>

function encode_byte_loop ::
  "binding \<Rightarrow> int \<Rightarrow> bytes \<Rightarrow> int \<Rightarrow> int \<Rightarrow> int \<Rightarrow> int \<Rightarrow> error + (int \<times> int list)" where
  "encode_byte_loop b x good_bytes min_div hi carry d =
     (if d < hi then
        (case check_div b x d good_bytes carry False of
           Inr (carry', v) \<Rightarrow>
             if min_div \<noteq> 0 \<and> d > min_div then Inl (BiggerDivision d) else Inr (carry', v)
         | Inl DivisionFailed \<Rightarrow> encode_byte_loop b x good_bytes min_div hi carry (d + 1)
         | Inl e \<Rightarrow> Inl e)
      else Inl EncodingFailure)"
  by pat_completeness auto
termination
  by (relation "measure (\<lambda>(b, x, good_bytes, min_div, hi, carry, d). nat (hi - d))") auto

declare encode_byte_loop.simps [simp del]

text \<open>\<^verbatim>\<open>n & 0xFFFFFFFF\<close> on Python's unbounded integers.\<close>

definition mask32 :: "int \<Rightarrow> int" where
  "mask32 n = n mod 2 ^ 32"

definition encode_byte ::
  "binding \<Rightarrow> int \<Rightarrow> bytes \<Rightarrow> int \<Rightarrow> int \<Rightarrow> int \<Rightarrow> error + (int \<times> int list)" where
  "encode_byte b x good_bytes min_div max_div carry =
     (let start_div = (if min_div = 0 then 1 else min_div)
      in encode_byte_loop b x good_bytes min_div (mask32 max_div) carry start_div)"

subsection \<open>\<^verbatim>\<open>encode_chunk\<close>\<close>

text \<open>
  \<^verbatim>\<open>p32\<close> and \<^verbatim>\<open>u32\<close> are pwntools' packing functions: four bytes, least
  significant first (section 4.4 of the specification: rows are 4 bytes, least-significant
  first). \<^verbatim>\<open>bytes(v)\<close> raises \<^verbatim>\<open>ValueError\<close> on an integer outside \<open>range(0, 256)\<close>,
  \<^verbatim>\<open>u32\<close> raises \<^verbatim>\<open>struct.error\<close> unless it gets exactly four bytes.
\<close>

definition p32 :: "int \<Rightarrow> bytes" where
  "p32 n = map (\<lambda>k. word_of_int (n div 256 ^ k)) [0, 1, 2, 3]"

definition py_bytes :: "int list \<Rightarrow> error + bytes" where
  "py_bytes v = (if \<forall>n \<in> set v. 0 \<le> n \<and> n < 256 then Inr (map word_of_int v) else Inl ValueError)"

definition u32 :: "bytes \<Rightarrow> error + int" where
  "u32 bs = (case bs of
               [b0, b1, b2, b3] \<Rightarrow>
                 Inr (uint b0 + 256 * uint b1 + 65536 * uint b2 + 16777216 * uint b3)
             | _ \<Rightarrow> Inl StructError)"

text \<open>The local variables of \<^verbatim>\<open>encode_chunk\<close> that live across the loops.\<close>

record chunk_state =
  encodings :: "int list list"
  carry :: int
  div_size :: int

text \<open>
  \<^verbatim>\<open>for i, v in enumerate(values): encodings[i].append(v)\<close>; a value beyond the last
  row raises \<^verbatim>\<open>IndexError\<close>.
\<close>

fun append_values :: "int list list \<Rightarrow> int list \<Rightarrow> error + int list list" where
  "append_values rows [] = Inr rows"
| "append_values [] (v # vs) = Inl IndexError"
| "append_values (row # rows) (v # vs) =
     (case append_values rows vs of
        Inl e \<Rightarrow> Inl e
      | Inr rows' \<Rightarrow> Inr ((row @ [v]) # rows'))"

text \<open>
  The body of \<^verbatim>\<open>for i, x in enumerate(p32(X))\<close> over the remaining bytes. An exception
  leaves the loop with the variables as they are at the \<^verbatim>\<open>raise\<close>: \<open>carry\<close> holds
  the borrow computed for this byte, since the assignment from \<^verbatim>\<open>encode_byte\<close> did not
  happen.
\<close>

fun encode_bytes ::
  "binding \<Rightarrow> bytes \<Rightarrow> int \<Rightarrow> chunk_state \<Rightarrow> int list \<Rightarrow> (error \<times> chunk_state) + chunk_state" where
  "encode_bytes b good_bytes max_div s [] = Inr s"
| "encode_bytes b good_bytes max_div s (x0 # xs) =
     (let x = (x0 - carry s) mod 256;
          s1 = s\<lparr>carry := (if x0 < carry s then 1 else 0)\<rparr>
      in case encode_byte b x good_bytes (div_size s1) max_div (carry s1) of
           Inl e \<Rightarrow> Inl (e, s1)
         | Inr (carry', values) \<Rightarrow>
             let s2 = s1\<lparr>carry := carry'\<rparr>;
                 s3 = (if div_size s2 = 0
                       then s2\<lparr>div_size := int (length values),
                               encodings := replicate (length values) []\<rparr>
                       else s2)
             in case append_values (encodings s3) values of
                  Inl e \<Rightarrow> Inl (e, s3)
                | Inr rows \<Rightarrow> encode_bytes b good_bytes max_div (s3\<lparr>encodings := rows\<rparr>) xs)"

text \<open>\<^verbatim>\<open>[u32(bytes(v)) for v in encodings]\<close>.\<close>

fun encodings_final :: "int list list \<Rightarrow> error + int list" where
  "encodings_final [] = Inr []"
| "encodings_final (v # rest) =
     (case py_bytes v of
        Inl e \<Rightarrow> Inl e
      | Inr bs \<Rightarrow>
          (case u32 bs of
             Inl e \<Rightarrow> Inl e
           | Inr n \<Rightarrow>
               (case encodings_final rest of
                  Inl e \<Rightarrow> Inl e
                | Inr ns \<Rightarrow> Inr (n # ns))))"

text \<open>The handler \<^verbatim>\<open>except BiggerDivision as e\<close>: lines 175 and 176, nothing else.\<close>

definition except_BiggerDivision :: "int \<Rightarrow> chunk_state \<Rightarrow> chunk_state" where
  "except_BiggerDivision e_div s = s\<lparr>div_size := e_div, encodings := replicate (nat e_div) []\<rparr>"

subsection \<open>The restart loop, \<^verbatim>\<open>decode\<close> and \<^verbatim>\<open>verify_chunk\<close>\<close>

text \<open>
  \<^verbatim>\<open>while True\<close> of line 135, entered with the variables \<open>s\<close>: one pass over the
  four bytes of \<open>X\<close>; \<^verbatim>\<open>BiggerDivision\<close> runs the handler and loops, every other
  exception leaves \<^verbatim>\<open>encode_chunk\<close>. That the loop terminates is proved in the next
  section, once the divisor carried by \<^verbatim>\<open>BiggerDivision\<close> is known to grow.
\<close>

function encode_chunk_loop :: "binding \<Rightarrow> bytes \<Rightarrow> int \<Rightarrow> int \<Rightarrow> chunk_state \<Rightarrow> error + int list" where
  "encode_chunk_loop b good_bytes max_div X s =
     (case encode_bytes b good_bytes max_div s (map uint (p32 X)) of
        Inr s' \<Rightarrow> encodings_final (encodings s')
      | Inl (BiggerDivision e_div, s') \<Rightarrow>
          encode_chunk_loop b good_bytes max_div X (except_BiggerDivision e_div s')
      | Inl (e, s') \<Rightarrow> Inl e)"
  by pat_completeness auto

definition encode_chunk :: "binding \<Rightarrow> int \<Rightarrow> bytes \<Rightarrow> int \<Rightarrow> int \<Rightarrow> error + int list" where
  "encode_chunk b chunk good_bytes initial max_div =
     (let X = mask32 (initial - chunk)
      in encode_chunk_loop b good_bytes max_div X \<lparr>encodings = [], carry = 0, div_size = 0\<rparr>)"

text \<open>\<^verbatim>\<open>decode\<close>: the loop \<^verbatim>\<open>for v in encodings: r = (r - v) & 0xFFFFFFFF\<close> from \<open>r\<close>.\<close>

fun decode :: "int list \<Rightarrow> int \<Rightarrow> int" where
  "decode [] r = r"
| "decode (v # vs) r = decode vs (mask32 (r - v))"

definition verify_chunk :: "int \<Rightarrow> int list \<Rightarrow> int \<Rightarrow> bool" where
  "verify_chunk chunk vs initial = (chunk = decode vs initial)"

text \<open>
  How many times the handler of \<^verbatim>\<open>BiggerDivision\<close> runs before the loop is left: the
  recursion of \<open>encode_chunk_loop\<close>, counting.
\<close>

function restarts :: "binding \<Rightarrow> bytes \<Rightarrow> int \<Rightarrow> int \<Rightarrow> chunk_state \<Rightarrow> nat" where
  "restarts b good_bytes max_div X s =
     (case encode_bytes b good_bytes max_div s (map uint (p32 X)) of
        Inr s' \<Rightarrow> 0
      | Inl (BiggerDivision e_div, s') \<Rightarrow>
          Suc (restarts b good_bytes max_div X (except_BiggerDivision e_div s'))
      | Inl (e, s') \<Rightarrow> 0)"
  by pat_completeness auto

subsection \<open>Notions used in the proofs\<close>

text \<open>
  One pass through lines 44 to 69 of \<^verbatim>\<open>check_div\<close>, without the carry retry: an
  exception, the values of a split that was found, or \<open>None\<close> when control reaches
  line 71. \<^verbatim>\<open>check_div\<close> is this pass, followed by the retry when it is allowed.
\<close>

definition attempt :: "binding \<Rightarrow> int \<Rightarrow> int \<Rightarrow> bytes \<Rightarrow> error + int list option" where
  "attempt b x d good_bytes =
     (if d = 0 then Inl ZeroDivisionError
      else
        let v = x div d; m = x mod d in
        if v \<ge> 256 then Inl DivisionFailed
        else
          case no_modulos b good_bytes v of
            Inl e \<Rightarrow> Inl e
          | Inr True \<Rightarrow> Inr (Some (replicate (nat d) v))
          | Inr False \<Rightarrow>
              (case contains good_bytes v of
                 Inl e \<Rightarrow> Inl e
               | Inr member \<Rightarrow>
                   Inr (if member
                        then find_split v m d (map (\<lambda>c. uint c - v) good_bytes)
                        else None)))"

text \<open>The invariant of the matrix: every entry is one of the good bytes.\<close>

definition good_rows :: "bytes \<Rightarrow> chunk_state \<Rightarrow> bool" where
  "good_rows G s = (set (concat (encodings s)) \<subseteq> uint ` set G)"

text \<open>
  The shape of the matrix after \<open>k\<close> bytes of a pass: \<open>div\<close> rows of \<open>k\<close> entries, and
  no row at all while \<open>div\<close> is still 0.
\<close>

definition shaped :: "nat \<Rightarrow> chunk_state \<Rightarrow> bool" where
  "shaped k s =
     (0 \<le> div_size s \<and> length (encodings s) = nat (div_size s)
      \<and> list_all (\<lambda>row. length row = k) (encodings s)
      \<and> (div_size s = 0 \<longrightarrow> k = 0))"

text \<open>The integer that a row of bytes, least significant first, stands for.\<close>

fun le_value :: "int list \<Rightarrow> int" where
  "le_value [] = 0"
| "le_value (x # xs) = x + 256 * le_value xs"

section \<open>Termination of the restart loop\<close>

text \<open>
  \<^verbatim>\<open>check_div\<close> is one pass and at most one retry; the exceptions it can raise; and
  the divisor carried by \<^verbatim>\<open>BiggerDivision\<close>, which is above the divisor of the pass
  and below the ceiling. The last fact is the termination of the loop.
\<close>

lemma check_div_attempt:
  "check_div b x d G c r =
     (case attempt b x d G of
        Inl e \<Rightarrow> Inl e
      | Inr (Some vs) \<Rightarrow> Inr (c, vs)
      | Inr None \<Rightarrow> if r then Inl DivisionFailed else check_div b (x + 256) d G (c + 1) True)"
  apply (subst check_div.simps)
  apply (simp add: attempt_def Let_def split: sum.splits bool.splits)
  done

lemma no_modulos_error: "no_modulos b G v = Inl e \<Longrightarrow> e = NameError \<or> e = ValueError"
  by (auto simp: no_modulos_def mod_eq_0_def contains_def split: binding.splits if_splits)

lemma contains_error: "contains G v = Inl e \<Longrightarrow> e = ValueError"
  by (auto simp: contains_def split: if_splits)

lemma attempt_error:
  assumes "attempt b x d G = Inl e"
  shows "e = ZeroDivisionError \<or> e = DivisionFailed \<or> e = NameError \<or> e = ValueError"
proof (cases "d = 0 \<or> x div d \<ge> 256")
  case True
  with assms show ?thesis by (auto simp: attempt_def Let_def split: if_splits)
next
  case False
  show ?thesis
  proof (cases "no_modulos b G (x div d)")
    case (Inl e')
    with False assms have "e = e'" by (simp add: attempt_def Let_def)
    with no_modulos_error [OF Inl] show ?thesis by blast
  next
    case (Inr t)
    show ?thesis
    proof (cases "contains G (x div d)")
      case (Inl e')
      with False Inr assms have "t \<Longrightarrow> False"
        by (simp add: attempt_def Let_def)
      with False Inr Inl assms have "e = e'"
        by (cases t) (simp_all add: attempt_def Let_def)
      with contains_error [OF Inl] show ?thesis by blast
    next
      case (Inr m)
      with False \<open>no_modulos b G (x div d) = Inr t\<close> assms show ?thesis
        by (cases t) (simp_all add: attempt_def Let_def)
    qed
  qed
qed

lemma check_div_error:
  assumes "check_div b x d G c r = Inl e"
  shows "e = ZeroDivisionError \<or> e = DivisionFailed \<or> e = NameError \<or> e = ValueError"
proof -
  have retry: "check_div b' x' d' G' c' True = Inl e' \<Longrightarrow>
      e' = ZeroDivisionError \<or> e' = DivisionFailed \<or> e' = NameError \<or> e' = ValueError"
    for b' x' d' G' c' e'
    by (subst (asm) check_div_attempt)
       (auto split: sum.splits option.splits dest: attempt_error)
  from assms show ?thesis
    by (subst (asm) check_div_attempt)
       (auto split: sum.splits option.splits if_splits dest: attempt_error retry)
qed

lemma encode_byte_loop_BiggerDivision:
  "encode_byte_loop b x G min_div hi c d = Inl (BiggerDivision e) \<Longrightarrow>
     min_div \<noteq> 0 \<and> min_div < e \<and> d \<le> e \<and> e < hi"
proof (induction b x G min_div hi c d rule: encode_byte_loop.induct)
  case (1 b x G min_div hi c d)
  show ?case
  proof (cases "d < hi")
    case False
    with "1.prems" show ?thesis by (simp add: encode_byte_loop.simps)
  next
    case True
    show ?thesis
    proof (cases "check_div b x d G c False")
      case (Inr r)
      with True "1.prems" show ?thesis
        by (cases r) (auto simp: encode_byte_loop.simps [of b x G min_div hi c d] split: if_splits)
    next
      case (Inl err)
      show ?thesis
      proof (cases "err = DivisionFailed")
        case True
        with Inl \<open>d < hi\<close> "1.prems" "1.IH" show ?thesis
          by (simp add: encode_byte_loop.simps [of b x G min_div hi c d])
      next
        case False
        from check_div_error [OF Inl] False Inl \<open>d < hi\<close> "1.prems" show ?thesis
          by (auto simp add: encode_byte_loop.simps [of b x G min_div hi c d])
      qed
    qed
  qed
qed

lemma encode_byte_BiggerDivision:
  "encode_byte b x G min_div max_div c = Inl (BiggerDivision e) \<Longrightarrow>
     min_div \<noteq> 0 \<and> min_div < e \<and> e < mask32 max_div"
  unfolding encode_byte_def Let_def
  by (drule encode_byte_loop_BiggerDivision) simp

lemma append_values_error: "append_values rows vs = Inl e \<Longrightarrow> e = IndexError"
  by (induction rows vs arbitrary: e rule: append_values.induct) (auto split: sum.splits)

lemma encode_bytes_BiggerDivision:
  "encode_bytes b G max_div s xs = Inl (BiggerDivision e, s') \<Longrightarrow>
     div_size s < e \<and> e < mask32 max_div \<and> (div_size s \<noteq> 0 \<longrightarrow> div_size s' = div_size s)"
proof (induction xs arbitrary: s)
  case Nil
  then show ?case by simp
next
  case (Cons x0 xs)
  let ?x = "(x0 - carry s) mod 256"
  let ?s1 = "s\<lparr>carry := (if x0 < carry s then 1 else 0)\<rparr>"
  show ?case
  proof (cases "encode_byte b ?x G (div_size s) max_div (carry ?s1)")
    case (Inl err)
    with Cons.prems have "err = BiggerDivision e" "s' = ?s1"
      by (simp_all add: Let_def)
    with Inl encode_byte_BiggerDivision [of b ?x G "div_size s" max_div "carry ?s1" e]
    show ?thesis by simp
  next
    case (Inr r)
    obtain c' vs where r: "r = (c', vs)" by (cases r)
    let ?s2 = "?s1\<lparr>carry := c'\<rparr>"
    let ?s3 = "if div_size ?s2 = 0
               then ?s2\<lparr>div_size := int (length vs), encodings := replicate (length vs) []\<rparr>
               else ?s2"
    show ?thesis
    proof (cases "append_values (encodings ?s3) vs")
      case (Inl err)
      with Cons.prems Inr r have "err = BiggerDivision e"
        by (simp add: Let_def split: if_splits)
      with append_values_error [OF Inl] show ?thesis by simp
    next
      case (Inr rows)
      with Cons.prems \<open>encode_byte b ?x G (div_size s) max_div (carry ?s1) = Inr r\<close> r
      have "encode_bytes b G max_div (?s3\<lparr>encodings := rows\<rparr>) xs = Inl (BiggerDivision e, s')"
        by (simp add: Let_def split: if_splits)
      from Cons.IH [OF this] show ?thesis
        by (auto split: if_splits)
    qed
  qed
qed

termination encode_chunk_loop
proof (relation "measure (\<lambda>(b, good_bytes, max_div, X, s). nat (mask32 max_div - div_size s))")
  show "wf (measure (\<lambda>(b, good_bytes, max_div, X, s). nat (mask32 max_div - div_size s)))"
    by simp
next
  fix b :: binding and good_bytes :: bytes and max_div X :: int and s s' :: chunk_state
    and x1 :: "error \<times> chunk_state" and x1a :: error and e_div :: int
  assume "encode_bytes b good_bytes max_div s (map uint (p32 X)) = Inl x1"
    and "(x1a, s') = x1" and "x1a = BiggerDivision e_div"
  then have "encode_bytes b good_bytes max_div s (map uint (p32 X)) = Inl (BiggerDivision e_div, s')"
    by simp
  from encode_bytes_BiggerDivision [OF this]
  show "((b, good_bytes, max_div, X, except_BiggerDivision e_div s'), (b, good_bytes, max_div, X, s))
          \<in> measure (\<lambda>(b, good_bytes, max_div, X, s). nat (mask32 max_div - div_size s))"
    by (simp add: except_BiggerDivision_def)
qed

termination restarts
proof (relation "measure (\<lambda>(b, good_bytes, max_div, X, s). nat (mask32 max_div - div_size s))")
  show "wf (measure (\<lambda>(b, good_bytes, max_div, X, s). nat (mask32 max_div - div_size s)))"
    by simp
next
  fix b :: binding and good_bytes :: bytes and max_div X :: int and s s' :: chunk_state
    and x1 :: "error \<times> chunk_state" and x1a :: error and e_div :: int
  assume "encode_bytes b good_bytes max_div s (map uint (p32 X)) = Inl x1"
    and "(x1a, s') = x1" and "x1a = BiggerDivision e_div"
  then have "encode_bytes b good_bytes max_div s (map uint (p32 X)) = Inl (BiggerDivision e_div, s')"
    by simp
  from encode_bytes_BiggerDivision [OF this]
  show "((b, good_bytes, max_div, X, except_BiggerDivision e_div s'), (b, good_bytes, max_div, X, s))
          \<in> measure (\<lambda>(b, good_bytes, max_div, X, s). nat (mask32 max_div - div_size s))"
    by (simp add: except_BiggerDivision_def)
qed

declare encode_chunk_loop.simps [simp del]

declare restarts.simps [simp del]

section \<open>Properties\<close>

subsection \<open>\<^verbatim>\<open>decode\<close> subtracts the sum\<close>

lemma decode_mask32: "decode vs (mask32 r) = mask32 (r - sum_list vs)"
proof (induction vs arbitrary: r)
  case Nil
  show ?case by (simp add: mask32_def)
next
  case (Cons v vs)
  have "decode (v # vs) (mask32 r) = mask32 (mask32 r - v - sum_list vs)"
    using Cons.IH [of "mask32 r - v"] by simp
  also have "\<dots> = mask32 (r - (v + sum_list vs))"
    unfolding mask32_def by (metis diff_diff_eq mod_diff_left_eq)
  finally show ?case by simp
qed

lemma decode_nonempty: "vs \<noteq> [] \<Longrightarrow> decode vs r = mask32 (r - sum_list vs)"
proof (cases vs)
  case Nil
  assume "vs \<noteq> []"
  with Nil show ?thesis by simp
next
  case (Cons v ws)
  have "decode (v # ws) r = mask32 (r - v - sum_list ws)"
    using decode_mask32 [of ws "r - v"] by simp
  with Cons show ?thesis by (simp add: diff_diff_eq)
qed

lemma sum_list_mset_eq: "mset xs = mset ys \<Longrightarrow> sum_list xs = (sum_list ys :: int)"
  by (metis sum_mset_sum_list)

text \<open>
  The mask is applied after each subtraction only, so \<^verbatim>\<open>decode([], i)\<close> is \<open>i\<close> itself,
  also for an \<open>i\<close> that is not a 32-bit value.
\<close>

lemma decode_empty_unmasked: "decode [] (2 ^ 32) = 2 ^ 32"
  by simp

text \<open>
  Claim C10. For every encoding list \<open>E\<close> and every initial value \<open>i\<close> (a 32-bit
  unsigned value; any integer when \<open>E\<close> is not empty), \<open>decode E i\<close> is
  \<open>(i - sum E) mod 2^32\<close>, and so \<open>decode\<close> gives the same value on every permutation
  of \<open>E\<close>.
\<close>

theorem decode_is_subtraction_of_sum:
  assumes "E \<noteq> [] \<or> (0 \<le> i \<and> i < 2 ^ 32)"
  shows "decode E i = (i - sum_list E) mod 2 ^ 32
         \<and> (\<forall>E'. mset E' = mset E \<longrightarrow> decode E' i = decode E i)"
proof
  show "decode E i = (i - sum_list E) mod 2 ^ 32"
  proof (cases "E = []")
    case True
    with assms show ?thesis by simp
  next
    case False
    then show ?thesis by (simp add: decode_nonempty mask32_def)
  qed
  show "\<forall>E'. mset E' = mset E \<longrightarrow> decode E' i = decode E i"
  proof (intro allI impI)
    fix E' assume m: "mset E' = mset E"
    show "decode E' i = decode E i"
    proof (cases "E = []")
      case True
      with m show ?thesis by simp
    next
      case False
      with m have "E' \<noteq> []" by auto
      with False sum_list_mset_eq [OF m] show ?thesis by (simp add: decode_nonempty)
    qed
  qed
qed

theorem decode_is_subtraction_of_sum_witness:
  "decode [0x41414141, 0x80808080, 0x41414141] 5
     = (5 - sum_list [0x41414141, 0x80808080, 0x41414141]) mod 2 ^ 32
   \<and> decode [0x80808080, 0x41414141, 0x41414141] 5
     = decode [0x41414141, 0x80808080, 0x41414141] 5"
proof -
  have h: "[0x41414141, 0x80808080, 0x41414141] \<noteq> [] \<or> ((0::int) \<le> 5 \<and> (5::int) < 2 ^ 32)"
    by simp
  have m: "mset [0x80808080, 0x41414141, 0x41414141 :: int]
             = mset [0x41414141, 0x80808080, 0x41414141]"
    by simp
  from decode_is_subtraction_of_sum [OF h] m show ?thesis by blast
qed

subsection \<open>\<^verbatim>\<open>encode_byte\<close>: the first divisor that works\<close>

lemma encode_byte_loop_first_success:
  assumes "k \<le> d" and "d < hi"
    and "\<forall>j. k \<le> j \<and> j < d \<longrightarrow> check_div b x j G c False = Inl DivisionFailed"
    and "check_div b x d G c False = Inr (c', vs)"
  shows "encode_byte_loop b x G min_div hi c k
           = (if min_div \<noteq> 0 \<and> d > min_div then Inl (BiggerDivision d) else Inr (c', vs))"
  using assms
proof (induction "nat (d - k)" arbitrary: k)
  case 0
  then have "k = d" by simp
  with "0.prems" show ?case
    by (simp add: encode_byte_loop.simps [of b x G min_div hi c d])
next
  case (Suc n)
  then have lt: "k < d" and n: "n = nat (d - (k + 1))" by linarith+
  with Suc.prems have fail: "check_div b x k G c False = Inl DivisionFailed" by simp
  from lt Suc.prems have "encode_byte_loop b x G min_div hi c k
      = encode_byte_loop b x G min_div hi c (k + 1)"
    by (simp add: encode_byte_loop.simps [of b x G min_div hi c k] fail)
  also have "\<dots> = (if min_div \<noteq> 0 \<and> d > min_div then Inl (BiggerDivision d) else Inr (c', vs))"
    using Suc.prems lt by (intro Suc.hyps(1) [OF n]) auto
  finally show ?case .
qed

lemma encode_byte_loop_all_fail:
  "(\<And>j. k \<le> j \<Longrightarrow> j < hi \<Longrightarrow> check_div b x j G c False = Inl DivisionFailed) \<Longrightarrow>
     encode_byte_loop b x G min_div hi c k = Inl EncodingFailure"
proof (induction b x G min_div hi c k rule: encode_byte_loop.induct)
  case (1 b x G min_div hi c d)
  show ?case
  proof (cases "d < hi")
    case False
    then show ?thesis by (simp add: encode_byte_loop.simps [of b x G min_div hi c d])
  next
    case True
    with "1.prems" have fail: "check_div b x d G c False = Inl DivisionFailed" by simp
    have "encode_byte_loop b x G min_div hi c (d + 1) = Inl EncodingFailure"
      using True fail "1.prems" by (intro "1.IH") simp_all
    with True fail show ?thesis
      by (simp add: encode_byte_loop.simps [of b x G min_div hi c d])
  qed
qed

text \<open>
  Claim C6. In a call of \<^verbatim>\<open>encode_byte\<close> with a floor \<open>min_div \<noteq> 0\<close>, let \<open>d\<close> be the
  first divisor of the search (from \<open>min_div\<close>, below \<open>max_div & 0xFFFFFFFF\<close>) at which
  \<^verbatim>\<open>check_div\<close> succeeds, every earlier one raising \<^verbatim>\<open>DivisionFailed\<close>. If
  \<open>d > min_div\<close> the call raises \<^verbatim>\<open>BiggerDivision(d)\<close> and returns nothing; if
  \<open>d = min_div\<close> it returns the carry and the values of \<^verbatim>\<open>check_div\<close>.
\<close>

theorem encode_byte_first_success:
  assumes "min_div \<noteq> 0" and "min_div \<le> d" and "d < mask32 max_div"
    and "\<forall>j. min_div \<le> j \<and> j < d \<longrightarrow> check_div b x j G c False = Inl DivisionFailed"
    and "check_div b x d G c False = Inr (c', vs)"
  shows "encode_byte b x G min_div max_div c
           = (if d > min_div then Inl (BiggerDivision d) else Inr (c', vs))"
  using encode_byte_loop_first_success [OF assms(2-5), of min_div] assms(1)
  by (simp add: encode_byte_def)

theorem encode_byte_first_success_witness:
  "encode_byte Nonzero 255 [0x33, 0x40] 4 10 1 = Inl (BiggerDivision 5)
   \<and> encode_byte Nonzero 255 [0x33, 0x40] 5 10 1 = Inr (1, [51, 51, 51, 51, 51])"
proof
  have fail: "\<forall>j::int. 4 \<le> j \<and> j < 5 \<longrightarrow> check_div Nonzero 255 j [0x33, 0x40] 1 False = Inl DivisionFailed"
  proof (intro allI impI)
    fix j :: int assume "4 \<le> j \<and> j < 5"
    then have "j = 4" by simp
    moreover have "check_div Nonzero 255 4 [0x33, 0x40] 1 False = Inl DivisionFailed" by code_simp
    ultimately show "check_div Nonzero 255 j [0x33, 0x40] 1 False = Inl DivisionFailed" by simp
  qed
  have ok: "check_div Nonzero 255 5 [0x33, 0x40] 1 False = Inr (1, [51, 51, 51, 51, 51])"
    by code_simp
  have hi: "(5::int) < mask32 10" by (simp add: mask32_def)
  from encode_byte_first_success [of 4 5 10 Nonzero 255 "[0x33, 0x40]" 1 1 "[51, 51, 51, 51, 51]"] fail ok hi
  show "encode_byte Nonzero 255 [0x33, 0x40] 4 10 1 = Inl (BiggerDivision 5)" by simp
  have none: "\<forall>j::int. 5 \<le> j \<and> j < 5 \<longrightarrow> check_div Nonzero 255 j [0x33, 0x40] 1 False = Inl DivisionFailed"
    by auto
  from encode_byte_first_success [of 5 5 10 Nonzero 255 "[0x33, 0x40]" 1 1 "[51, 51, 51, 51, 51]"] none ok hi
  show "encode_byte Nonzero 255 [0x33, 0x40] 5 10 1 = Inr (1, [51, 51, 51, 51, 51])" by simp
qed

subsection \<open>Determinism\<close>



subsection \<open>The test for an equal split\<close>

text \<open>
  With the global \<^verbatim>\<open>mod\<close> bound to a value other than 0 the test of line 53 is never
  true. For \<open>div \<ge> 2\<close> the search of lines 61 to 69 still finds the equal split, as
  the offset 0 at \<open>split = 1\<close>; for \<open>div = 1\<close> the search is empty.
\<close>

lemma find_in_prefix:
  "\<exists>x \<in> set xs. P x \<Longrightarrow> \<exists>y \<in> set xs. P y \<and> List.find P (xs @ ys) = Some y"
  by (induction xs) auto

lemma combinations_with_replacement_1:
  "combinations_with_replacement xs (Suc 0) = map (\<lambda>x. [x]) xs"
  by (induction xs) simp_all

lemma candidates_ge2:
  assumes "2 \<le> d"
  shows "\<exists>rest. candidates offsets d = map (\<lambda>offset. (1, [offset])) offsets @ rest"
proof -
  from assms have "1 < nat d" by simp
  then have "[1 ..< nat d] = 1 # [Suc 1 ..< nat d]"
    by (rule upt_conv_Cons)
  then show ?thesis
    by (simp add: candidates_def combinations_with_replacement_1 comp_def)
qed

lemma find_split_equal:
  assumes "2 \<le> d" and "0 \<in> set offsets"
  shows "find_split v 0 d offsets = Some (replicate (nat d) v)"
proof -
  from candidates_ge2 [OF assms(1)] obtain rest
    where c: "candidates offsets d = map (\<lambda>offset. (1, [offset])) offsets @ rest" ..
  let ?P = "\<lambda>(split :: nat, offset_list :: int list). sum_list offset_list = 0"
  from assms(2) have "\<exists>p \<in> set (map (\<lambda>offset. (1, [offset])) offsets). ?P p"
    by auto
  from find_in_prefix [OF this, of rest] obtain p
    where p: "p \<in> set (map (\<lambda>offset. (1, [offset])) offsets)" "?P p"
      and f: "List.find ?P (candidates offsets d) = Some p"
    unfolding c by blast
  from p have "p = (1, [0])" by auto
  with f have "find_split v 0 d offsets = Some ([v] @ replicate (nat (d - 1)) v)"
    by (simp add: find_split_def)
  moreover from assms(1) have "nat d = Suc (nat (d - 1))" by simp
  then have "v # replicate (nat (d - 1)) v = replicate (nat d) v" by simp
  ultimately show ?thesis by simp
qed

lemma check_div_equal_split:
  assumes "x mod d = 0" and "0 \<le> x" and "x div d < 256" and "x div d \<in> uint ` set G"
    and "(b = Zero \<and> 1 \<le> d) \<or> (b = Nonzero \<and> 2 \<le> d)"
  shows "check_div b x d G c r = Inr (c, replicate (nat d) (x div d))"
proof -
  from assms(5) have d: "1 \<le> d" by auto
  with assms(2) have "0 \<le> x div d" by (simp add: pos_imp_zdiv_nonneg_iff)
  with assms(3,4) have c: "contains G (x div d) = Inr True"
    by (simp add: contains_def)
  have "attempt b x d G = Inr (Some (replicate (nat d) (x div d)))"
  proof (cases "b = Zero")
    case True
    with c d assms(3) show ?thesis
      by (simp add: attempt_def no_modulos_def mod_eq_0_def)
  next
    case False
    with assms(5) have b: "b = Nonzero" and d2: "2 \<le> d" by auto
    from assms(4) have "0 \<in> set (map (\<lambda>c. uint c - x div d) G)" by auto
    from find_split_equal [OF d2 this]
    have "find_split (x div d) 0 d (map (\<lambda>c. uint c - x div d) G)
        = Some (replicate (nat d) (x div d))" .
    with b c d assms(1,3) show ?thesis
      by (simp add: attempt_def no_modulos_def mod_eq_0_def)
  qed
  then show ?thesis by (subst check_div_attempt) simp
qed

text \<open>
  Claim C3. For \<open>x % div = 0\<close> and \<open>x // div < 256\<close> a good byte, \<^verbatim>\<open>check_div\<close> is to
  return \<open>div\<close> copies of \<open>x // div\<close> without using the carry retry. Line 53 tests the
  global \<^verbatim>\<open>mod\<close>, not the remainder \<open>m\<close>: for \<open>x = 0x41\<close>, \<open>div = 1\<close> and the good byte
  \<open>0x41\<close> the call raises \<^verbatim>\<open>DivisionFailed\<close> (after a retry with \<open>x + 256\<close>) when the
  name is bound to a value other than 0, and \<^verbatim>\<open>NameError\<close> when it is unbound. The
  values \<open>[0x41]\<close> come back only if the global happens to be 0.
\<close>

theorem equal_split_of_one_fails:
  "check_div Nonzero 0x41 1 [0x41] 0 False = Inl DivisionFailed
   \<and> check_div Unbound 0x41 1 [0x41] 0 False = Inl NameError
   \<and> check_div Zero 0x41 1 [0x41] 0 False = Inr (0, [0x41])"
  by code_simp

subsection \<open>Scenario A\<close>

lemma div_191_not_0x41: "1 \<le> d \<Longrightarrow> (191::int) div d \<noteq> 65"
proof
  assume d: "1 \<le> d" and e: "(191::int) div d = 65"
  show False
  proof (cases "d \<le> 2")
    case True
    with d have "d = 1 \<or> d = 2" by arith
    with e show False by auto
  next
    case False
    then have "(191::int) div d \<le> 191 div 3" by (intro zdiv_mono2) simp_all
    with e show False by simp
  qed
qed

lemma div_447_not_0x41: "1 \<le> d \<Longrightarrow> (447::int) div d \<noteq> 65"
proof
  assume d: "1 \<le> d" and e: "(447::int) div d = 65"
  show False
  proof (cases "d \<le> 6")
    case True
    with d have "d = 1 \<or> d = 2 \<or> d = 3 \<or> d = 4 \<or> d = 5 \<or> d = 6" by arith
    with e show False by auto
  next
    case False
    then have "(447::int) div d \<le> 447 div 7" by (intro zdiv_mono2) simp_all
    with e show False by simp
  qed
qed

lemma attempt_A:
  assumes "1 \<le> d" and "x div d \<noteq> 65" and "0 \<le> x" and "b \<noteq> Unbound"
  shows "attempt b x d [0x41] = (if x div d \<ge> 256 then Inl DivisionFailed else Inr None)"
proof (cases "x div d \<ge> 256")
  case True
  with assms show ?thesis by (simp add: attempt_def)
next
  case False
  from assms have "0 \<le> x div d" by (simp add: pos_imp_zdiv_nonneg_iff)
  with False assms(2) have c: "contains [0x41] (x div d) = Inr False"
    by (simp add: contains_def)
  with assms(4) have "no_modulos b [0x41] (x div d) = Inr False"
    by (cases b) (simp_all add: no_modulos_def mod_eq_0_def)
  with False c assms(1) show ?thesis by (simp add: attempt_def)
qed

lemma check_div_A:
  assumes "1 \<le> d" and "b \<noteq> Unbound"
  shows "check_div b 191 d [0x41] c False = Inl DivisionFailed"
proof -
  have "(191::int) div d \<le> 191 div 1" using assms by (intro zdiv_mono2) simp_all
  then have "\<not> 256 \<le> (191::int) div d" by simp
  with attempt_A [OF assms(1) div_191_not_0x41 [OF assms(1)] _ assms(2)]
  have first: "attempt b 191 d [0x41] = Inr None"
    by simp
  from attempt_A [OF assms(1) div_447_not_0x41 [OF assms(1)] _ assms(2)]
  have "check_div b 447 d [0x41] (c + 1) True = Inl DivisionFailed"
    by (subst check_div_attempt) simp
  with first show ?thesis by (subst check_div_attempt) simp
qed

lemma check_div_A_Unbound:
  assumes "1 \<le> d"
  shows "check_div Unbound 191 d [0x41] c False = Inl NameError"
proof -
  have "(191::int) div d \<le> 191 div 1" using assms by (intro zdiv_mono2) simp_all
  then have "\<not> 256 \<le> (191::int) div d" by simp
  with assms have "attempt Unbound 191 d [0x41] = Inl NameError"
    by (simp add: attempt_def no_modulos_def mod_eq_0_def)
  then show ?thesis by (subst check_div_attempt) simp
qed

lemma p32_A: "map uint (p32 0xBEBEBEBF) = [0xBF, 0xBE, 0xBE, 0xBE]"
  by (simp add: p32_def)

lemma encode_byte_A:
  "encode_byte b 191 [0x41] 0 max_div 0
     = Inl (if b = Unbound \<and> 1 < mask32 max_div then NameError else EncodingFailure)"
proof (cases "b = Unbound")
  case False
  then have "encode_byte_loop b 191 [0x41] 0 (mask32 max_div) 0 1 = Inl EncodingFailure"
    by (intro encode_byte_loop_all_fail check_div_A) simp_all
  with False show ?thesis by (simp add: encode_byte_def)
next
  case True
  then show ?thesis
    by (simp add: encode_byte_def encode_byte_loop.simps [of Unbound 191 "[0x41]" 0 "mask32 max_div" 0 1]
          check_div_A_Unbound)
qed

text \<open>
  Claim C5, as amended. With the good byte \<open>0x41\<close>, \<open>i = 0\<close> and \<open>c = 0x41414141\<close>,
  \<^verbatim>\<open>encode_chunk\<close> returns no encoding, whatever the ceiling: \<open>X\<close> is \<open>0xBEBEBEBF\<close>,
  and neither \<open>0xBF\<close> nor \<open>0x1BF\<close> divided by any \<open>d \<ge> 1\<close> gives \<open>0x41\<close>, so the call
  raises \<^verbatim>\<open>EncodingFailure\<close> (the first test of \<^verbatim>\<open>mod\<close> raises \<^verbatim>\<open>NameError\<close> instead
  when the name is unbound). The list \<open>[0x41414141]\<close> decodes from 0 to \<open>0xBEBEBEBF\<close>.
\<close>

theorem scenario_A_is_not_encodable:
  "encode_chunk b 0x41414141 [0x41] 0 max_div
     = Inl (if b = Unbound \<and> 1 < mask32 max_div then NameError else EncodingFailure)
   \<and> decode [0x41414141] 0 = 0xBEBEBEBF"
proof
  show "decode [0x41414141] 0 = 0xBEBEBEBF" by (simp add: mask32_def)
  define err where "err = (if b = Unbound \<and> 1 < mask32 max_div then NameError else EncodingFailure)"
  define s0 where "s0 = \<lparr>encodings = [], carry = 0, div_size = 0\<rparr>"
  have X: "mask32 (0 - 0x41414141) = 0xBEBEBEBF" by (simp add: mask32_def)
  have "encode_byte b 191 [0x41] 0 max_div 0 = Inl err"
    by (simp add: encode_byte_A err_def)
  then have pass: "encode_bytes b [0x41] max_div s0 (map uint (p32 0xBEBEBEBF)) = Inl (err, s0)"
    by (simp add: p32_A s0_def)
  have "err \<noteq> BiggerDivision e" for e by (simp add: err_def)
  then have "encode_chunk_loop b [0x41] max_div 0xBEBEBEBF s0 = Inl err"
    by (subst encode_chunk_loop.simps) (simp add: pass split: error.splits)
  then show "encode_chunk b 0x41414141 [0x41] 0 max_div
     = Inl (if b = Unbound \<and> 1 < mask32 max_div then NameError else EncodingFailure)"
    by (simp only: encode_chunk_def Let_def X s0_def err_def)
qed

text \<open>
  Scenario A as the specification states it: the result is not \<open>[0x41414141]\<close>, and
  that list does not decode to \<open>0x41414141\<close>.
\<close>

theorem scenario_A_counterexample:
  "encode_chunk Nonzero 0x41414141 [0x41] 0 10 \<noteq> Inr [0x41414141]
   \<and> decode [0x41414141] 0 \<noteq> 0x41414141"
  by code_simp

subsection \<open>The values returned by \<^verbatim>\<open>check_div\<close>\<close>

lemma combinations_with_replacement_elem:
  "ol \<in> set (combinations_with_replacement xs n) \<Longrightarrow> length ol = n \<and> set ol \<subseteq> set xs"
  by (induction xs n arbitrary: ol rule: combinations_with_replacement.induct) fastforce+

lemma candidates_elem:
  assumes "(split, ol) \<in> set (candidates offsets d)"
  shows "1 \<le> split \<and> int split < d \<and> length ol = split \<and> set ol \<subseteq> set offsets"
proof -
  from assms have s: "split \<in> set [1 ..< nat d]"
    and ol: "ol \<in> set (combinations_with_replacement offsets split)"
    by (auto simp: candidates_def)
  from s have "1 \<le> split" "int split < d" by auto
  with combinations_with_replacement_elem [OF ol] show ?thesis by simp
qed

lemma find_split_Some:
  assumes "find_split v m d offsets = Some vs"
  obtains split ol where "(split, ol) \<in> set (candidates offsets d)"
    and "sum_list ol = m"
    and "vs = map (\<lambda>offset. v + offset) ol @ replicate (nat (d - int split)) v"
proof -
  from assms obtain p where f: "List.find (\<lambda>(split, ol). sum_list ol = m) (candidates offsets d) = Some p"
    by (auto simp: find_split_def split: option.splits)
  obtain split ol where p: "p = (split, ol)" by (cases p)
  from f p have "(split, ol) \<in> set (candidates offsets d)" "sum_list ol = m"
    by (auto simp: find_Some_iff in_set_conv_nth)
  moreover from assms f p
  have "vs = map (\<lambda>offset. v + offset) ol @ replicate (nat (d - int split)) v"
    by (simp add: find_split_def)
  ultimately show thesis by (rule that)
qed

lemma find_split_values:
  assumes "find_split v (x mod d) d (map (\<lambda>c. uint c - v) G) = Some vs" and "v = x div d"
    and "v \<in> uint ` set G"
  shows "set vs \<subseteq> uint ` set G \<and> length vs = nat d \<and> sum_list vs = x"
proof -
  from assms(1) obtain split ol
    where c: "(split, ol) \<in> set (candidates (map (\<lambda>c. uint c - v) G) d)"
      and s: "sum_list ol = x mod d"
      and vs: "vs = map (\<lambda>offset. v + offset) ol @ replicate (nat (d - int split)) v"
    by (rule find_split_Some)
  from candidates_elem [OF c]
  have split: "1 \<le> split" "int split < d" "length ol = split"
    and ol: "set ol \<subseteq> set (map (\<lambda>c. uint c - v) G)"
    by simp_all
  have "set (map (\<lambda>offset. v + offset) ol) \<subseteq> uint ` set G"
    using ol by auto
  with assms(3) vs have 1: "set vs \<subseteq> uint ` set G" by auto
  from split vs have 2: "length vs = nat d" by simp
  have "sum_list (map (\<lambda>offset. v + offset) ol) = int (length ol) * v + sum_list ol"
    by (induction ol) (simp_all add: algebra_simps)
  with vs split s have "sum_list vs = int split * v + x mod d + (d - int split) * v"
    by (simp add: sum_list_replicate)
  also have "\<dots> = d * v + x mod d" by (simp add: algebra_simps)
  also have "\<dots> = x" using assms(2) by simp
  finally have 3: "sum_list vs = x" .
  from 1 2 3 show ?thesis by simp
qed

lemma contains_True: "contains G v = Inr True \<Longrightarrow> v \<in> uint ` set G"
  by (simp add: contains_def split: if_splits)

lemma no_modulos_True: "no_modulos b G v = Inr True \<Longrightarrow> b = Zero \<and> v \<in> uint ` set G"
  by (cases b) (auto simp: no_modulos_def mod_eq_0_def dest: contains_True)

lemma attempt_values:
  assumes "attempt b x d G = Inr (Some vs)"
  shows "set vs \<subseteq> uint ` set G \<and> length vs = nat d \<and> (b \<noteq> Zero \<longrightarrow> sum_list vs = x)"
proof -
  from assms have d: "d \<noteq> 0" and v: "\<not> 256 \<le> x div d"
    by (auto simp: attempt_def Let_def split: if_splits)
  show ?thesis
  proof (cases "no_modulos b G (x div d)")
    case (Inl e)
    with assms d v show ?thesis by (simp add: attempt_def Let_def)
  next
    case (Inr t)
    show ?thesis
    proof (cases t)
      case True
      with Inr assms d v have "vs = replicate (nat d) (x div d)"
        by (simp add: attempt_def Let_def)
      with no_modulos_True [of b G "x div d"] Inr True show ?thesis by auto
    next
      case False
      show ?thesis
      proof (cases "contains G (x div d)")
        case (Inl e)
        with assms d v Inr False show ?thesis by (simp add: attempt_def Let_def)
      next
        case (Inr m)
        with assms d v \<open>no_modulos b G (x div d) = Inr t\<close> False
        have m: "m" and f: "find_split (x div d) (x mod d) d (map (\<lambda>c. uint c - x div d) G) = Some vs"
          by (simp_all add: attempt_def Let_def split: if_splits)
        from m Inr have "x div d \<in> uint ` set G" by (auto dest: contains_True)
        from find_split_values [OF f refl this] show ?thesis by simp
      qed
    qed
  qed
qed

lemma check_div_values:
  assumes "check_div b x d G c r = Inr (c', vs)"
  shows "set vs \<subseteq> uint ` set G \<and> length vs = nat d
         \<and> (c' = c \<or> (\<not> r \<and> c' = c + 1))
         \<and> (b \<noteq> Zero \<longrightarrow> sum_list vs = x + 256 * (c' - c))"
proof (cases "attempt b x d G")
  case (Inl e)
  with assms show ?thesis by (subst (asm) check_div_attempt) simp
next
  case (Inr o1)
  show ?thesis
  proof (cases o1)
    case (Some ws)
    with Inr assms have "c' = c" "vs = ws" by (subst (asm) check_div_attempt, simp)+
    with attempt_values [of b x d G ws] Inr Some show ?thesis by simp
  next
    case None
    with Inr assms have nr: "\<not> r" and again: "check_div b (x + 256) d G (c + 1) True = Inr (c', vs)"
      by (subst (asm) check_div_attempt, simp split: if_splits)+
    from again obtain ws where "attempt b (x + 256) d G = Inr (Some ws)" "c' = c + 1" "vs = ws"
      by (subst (asm) check_div_attempt) (auto split: sum.splits option.splits)
    with attempt_values [of b "x + 256" d G ws] nr show ?thesis by simp
  qed
qed

subsection \<open>Every byte of an encoding is a good byte\<close>

lemma encode_byte_loop_success:
  assumes "encode_byte_loop b x G min_div hi c k = Inr (c', vs)"
  obtains d where "k \<le> d" and "d < hi" and "min_div = 0 \<or> d \<le> min_div"
    and "check_div b x d G c False = Inr (c', vs)"
  using assms
proof (induction b x G min_div hi c k arbitrary: thesis rule: encode_byte_loop.induct)
  case (1 b x G min_div hi c d)
  from "1.prems"(2) have lt: "d < hi"
    by (simp add: encode_byte_loop.simps [of b x G min_div hi c d] split: if_splits)
  show ?case
  proof (cases "check_div b x d G c False")
    case (Inr r)
    with lt "1.prems"(2) have "min_div = 0 \<or> d \<le> min_div" "r = (c', vs)"
      by (auto simp: encode_byte_loop.simps [of b x G min_div hi c d] split: if_splits)
    with Inr lt show ?thesis by (intro "1.prems"(1) [of d]) simp_all
  next
    case (Inl e)
    with lt "1.prems"(2) have e: "e = DivisionFailed"
      by (cases e) (simp_all add: encode_byte_loop.simps [of b x G min_div hi c d])
    with Inl lt "1.prems"(2) have "encode_byte_loop b x G min_div hi c (d + 1) = Inr (c', vs)"
      by (simp add: encode_byte_loop.simps [of b x G min_div hi c d])
    from "1.IH" [OF lt Inl e _ this] obtain d' where "d + 1 \<le> d'" "d' < hi"
      "min_div = 0 \<or> d' \<le> min_div" "check_div b x d' G c False = Inr (c', vs)"
      by blast
    then show ?thesis by (intro "1.prems"(1) [of d']) simp_all
  qed
qed

lemma encode_byte_success:
  assumes "encode_byte b x G min_div max_div c = Inr (c', vs)"
  obtains d where "d < mask32 max_div" and "if min_div = 0 then 1 \<le> d else d = min_div"
    and "check_div b x d G c False = Inr (c', vs)"
proof -
  from assms have "encode_byte_loop b x G min_div (mask32 max_div) c (if min_div = 0 then 1 else min_div)
      = Inr (c', vs)" by (simp add: encode_byte_def)
  then obtain d where "(if min_div = 0 then 1 else min_div) \<le> d" "d < mask32 max_div"
    "min_div = 0 \<or> d \<le> min_div" "check_div b x d G c False = Inr (c', vs)"
    by (rule encode_byte_loop_success)
  then show thesis by (intro that [of d]) (auto split: if_splits)
qed

lemma encode_byte_good:
  assumes "encode_byte b x G min_div max_div c = Inr (c', vs)"
  shows "set vs \<subseteq> uint ` set G"
proof -
  from assms obtain d where "check_div b x d G c False = Inr (c', vs)"
    by (rule encode_byte_success)
  from check_div_values [OF this] show ?thesis by simp
qed

lemma encode_byte_length:
  assumes "encode_byte b x G min_div max_div c = Inr (c', vs)" and "0 \<le> min_div"
  shows "0 < length vs \<and> (min_div \<noteq> 0 \<longrightarrow> int (length vs) = min_div)"
proof -
  from assms(1) obtain d where d: "if min_div = 0 then 1 \<le> d else d = min_div"
    and ok: "check_div b x d G c False = Inr (c', vs)"
    by (rule encode_byte_success)
  from d assms(2) have "1 \<le> d" by (auto split: if_splits)
  with check_div_values [OF ok] d show ?thesis by (auto split: if_splits)
qed

lemma append_values_rows:
  "append_values rows vs = Inr rows' \<Longrightarrow>
     length rows' = length rows \<and> set (concat rows') \<subseteq> set (concat rows) \<union> set vs"
proof (induction rows vs arbitrary: rows' rule: append_values.induct)
  case (1 rows)
  then show ?case by simp
next
  case (2 v vs)
  then show ?case by simp
next
  case (3 row rows v vs)
  then obtain rs where rs: "append_values rows vs = Inr rs" and r': "rows' = (row @ [v]) # rs"
    by (auto split: sum.splits)
  from "3.IH" [OF rs] r' show ?case by auto
qed

lemma encode_bytes_good_rows:
  "encode_bytes b G max_div s xs = Inr s' \<Longrightarrow> good_rows G s \<Longrightarrow> good_rows G s'"
proof (induction xs arbitrary: s)
  case Nil
  then show ?case by simp
next
  case (Cons x0 xs)
  let ?x = "(x0 - carry s) mod 256"
  let ?c = "if x0 < carry s then 1 else 0 :: int"
  from Cons.prems(1) obtain c' vs where eb: "encode_byte b ?x G (div_size s) max_div ?c = Inr (c', vs)"
    by (auto simp: Let_def split: sum.splits)
  let ?s3 = "if div_size s = 0
             then s\<lparr>carry := c', div_size := int (length vs), encodings := replicate (length vs) []\<rparr>
             else s\<lparr>carry := c'\<rparr>"
  from Cons.prems(1) eb obtain rows where av: "append_values (encodings ?s3) vs = Inr rows"
    and rest: "encode_bytes b G max_div (?s3\<lparr>encodings := rows\<rparr>) xs = Inr s'"
    by (auto simp: Let_def split: sum.splits if_splits)
  from encode_byte_good [OF eb] have vs: "set vs \<subseteq> uint ` set G" .
  from Cons.prems(2) have old: "set (concat (encodings ?s3)) \<subseteq> uint ` set G"
    by (auto simp: good_rows_def)
  from append_values_rows [OF av]
  have "set (concat rows) \<subseteq> set (concat (encodings ?s3)) \<union> set vs" ..
  with old vs have "set (concat rows) \<subseteq> uint ` set G" by blast
  then have "good_rows G (?s3\<lparr>encodings := rows\<rparr>)"
    by (simp add: good_rows_def)
  with rest show ?case by (intro Cons.IH [of "?s3\<lparr>encodings := rows\<rparr>"])
qed


lemma uint_byte: "0 \<le> uint (b :: 8 word) \<and> uint b < 256"
  using uint_bounded [of b] by simp

lemma div_256_byte: "(uint (b :: 8 word) + 256 * y) div 256 = y"
  using uint_byte [of b] by (simp add: div_pos_pos_trivial)

lemma p32_u32:
  assumes "u32 bs = Inr n"
  shows "p32 n = bs"
proof -
  from assms obtain b0 b1 b2 b3 where bs: "bs = [b0, b1, b2, b3]"
    and n: "n = uint b0 + 256 * uint b1 + 65536 * uint b2 + 16777216 * uint b3"
    by (auto simp: u32_def split: list.splits)
  define n1 where "n1 = uint b1 + 256 * (uint b2 + 256 * uint b3)"
  define n2 where "n2 = uint b2 + 256 * uint b3"
  have 0: "n = uint b0 + 256 * n1" by (simp add: n n1_def)
  have d1: "n div 256 = n1" unfolding 0 by (rule div_256_byte)
  have d2: "n1 div 256 = n2" unfolding n1_def n2_def by (rule div_256_byte)
  have d3: "n2 div 256 = uint b3" unfolding n2_def by (rule div_256_byte)
  have "n div (256 * 256) = n div 256 div 256"
    by (rule zdiv_zmult2_eq) simp
  with d1 d2 have s2: "n div 65536 = n2" by simp
  have "n div (65536 * 256) = n div 65536 div 256"
    by (rule zdiv_zmult2_eq) simp
  with s2 d3 have s3: "n div 16777216 = uint b3" by simp
  have z: "(256 :: 8 word) = 0" by simp
  have w: "word_of_int (uint b + 256 * k) = b" for b :: "8 word" and k
    by (simp add: z)
  have "word_of_int n = b0" unfolding 0 by (rule w)
  moreover have "word_of_int (n div 256) = b1" unfolding d1 n1_def by (rule w)
  moreover have "word_of_int (n div 65536) = b2" unfolding s2 n2_def by (rule w)
  moreover have "word_of_int (n div 16777216) = b3" unfolding s3 by simp
  ultimately show ?thesis
    unfolding p32_def bs by simp
qed

lemma py_bytes_good:
  assumes "py_bytes row = Inr bs" and "set row \<subseteq> uint ` set G"
  shows "set bs \<subseteq> set G"
proof -
  from assms(1) have "bs = map word_of_int row"
    by (simp add: py_bytes_def split: if_splits)
  with assms(2) show ?thesis by auto
qed

lemma encodings_final_good:
  "encodings_final rows = Inr E \<Longrightarrow> set (concat rows) \<subseteq> uint ` set G \<Longrightarrow>
     e \<in> set E \<Longrightarrow> set (p32 e) \<subseteq> set G"
proof (induction rows arbitrary: E)
  case Nil
  then show ?case by simp
next
  case (Cons row rows)
  from Cons.prems(1) obtain bs n ns where bs: "py_bytes row = Inr bs" and n: "u32 bs = Inr n"
    and ns: "encodings_final rows = Inr ns" and E: "E = n # ns"
    by (auto split: sum.splits)
  from Cons.prems(2) have row: "set row \<subseteq> uint ` set G" and rows: "set (concat rows) \<subseteq> uint ` set G"
    by auto
  show ?case
  proof (cases "e = n")
    case True
    with p32_u32 [OF n] py_bytes_good [OF bs row] show ?thesis by simp
  next
    case False
    with Cons.prems(3) E have "e \<in> set ns" by simp
    from Cons.IH [OF ns rows this] show ?thesis .
  qed
qed

lemma encode_chunk_loop_good:
  "encode_chunk_loop b G max_div X s = Inr E \<Longrightarrow> good_rows G s \<Longrightarrow> e \<in> set E \<Longrightarrow>
     set (p32 e) \<subseteq> set G"
proof (induction b G max_div X s rule: encode_chunk_loop.induct)
  case (1 b G max_div X s)
  show ?case
  proof (cases "encode_bytes b G max_div s (map uint (p32 X))")
    case (Inr s')
    with "1.prems"(1) have fin: "encodings_final (encodings s') = Inr E"
      by (simp add: encode_chunk_loop.simps [of b G max_div X s])
    from encode_bytes_good_rows [OF Inr "1.prems"(2)]
    have "set (concat (encodings s')) \<subseteq> uint ` set G" by (simp add: good_rows_def)
    from encodings_final_good [OF fin this "1.prems"(3)] show ?thesis .
  next
    case (Inl p)
    obtain err s' where p: "p = (err, s')" by (cases p)
    with Inl "1.prems"(1) obtain d where err: "err = BiggerDivision d"
      and again: "encode_chunk_loop b G max_div X (except_BiggerDivision d s') = Inr E"
      by (cases err) (simp_all add: encode_chunk_loop.simps [of b G max_div X s])
    have "good_rows G (except_BiggerDivision d s')"
      by (simp add: good_rows_def except_BiggerDivision_def)
    from "1.IH" [OF Inl p [symmetric] err again this "1.prems"(3)] show ?thesis .
  qed
qed

text \<open>
  Claim C2. Whenever \<^verbatim>\<open>encode_chunk\<close> returns an encoding \<open>E\<close>, every byte of every
  32-bit component of \<open>E\<close> (the four bytes \<^verbatim>\<open>p32\<close> gives) is one of the good bytes.
  This holds whatever the global \<^verbatim>\<open>mod\<close> is bound to.
\<close>

theorem encode_chunk_bytes_good:
  assumes "encode_chunk b c G i m = Inr E"
  shows "\<forall>e \<in> set E. set (p32 e) \<subseteq> set G"
proof
  fix e assume e: "e \<in> set E"
  have "good_rows G \<lparr>encodings = [], carry = 0, div_size = 0\<rparr>"
    by (simp add: good_rows_def)
  with assms have "encode_chunk_loop b G m (mask32 (i - c)) \<lparr>encodings = [], carry = 0, div_size = 0\<rparr> = Inr E"
    by (simp add: encode_chunk_def)
  from encode_chunk_loop_good [OF this \<open>good_rows G \<lparr>encodings = [], carry = 0, div_size = 0\<rparr>\<close> e]
  show "set (p32 e) \<subseteq> set G" .
qed

theorem encode_chunk_bytes_good_witness:
  "encode_chunk Nonzero 0x7D7D7D7E [0x41] 0 10 = Inr [0x41414141, 0x41414141]
   \<and> set (p32 0x41414141) \<subseteq> set [0x41 :: 8 word]"
proof -
  have r: "encode_chunk Nonzero 0x7D7D7D7E [0x41] 0 10 = Inr [0x41414141, 0x41414141]"
    by code_simp
  from encode_chunk_bytes_good [OF r] show ?thesis using r by simp
qed

subsection \<open>The carry retry of \<^verbatim>\<open>check_div\<close>\<close>

lemma attempt_Nonzero_no_split:
  assumes "1 \<le> d" and "0 \<le> x"
    and "\<not> (x div d \<in> uint ` set G \<and>
            (\<exists>ol. 1 \<le> length ol \<and> int (length ol) < d
                  \<and> set ol \<subseteq> (\<lambda>c. uint c - x div d) ` set G \<and> sum_list ol = x mod d))"
  shows "attempt Nonzero x d G = (if x div d \<ge> 256 then Inl DivisionFailed else Inr None)"
proof (cases "x div d \<ge> 256")
  case True
  with assms(1) show ?thesis by (simp add: attempt_def)
next
  case False
  from assms(1,2) have v: "0 \<le> x div d" by (simp add: pos_imp_zdiv_nonneg_iff)
  have nm: "no_modulos Nonzero G (x div d) = Inr False"
    by (simp add: no_modulos_def mod_eq_0_def)
  from v False have c: "contains G (x div d) = Inr (x div d \<in> uint ` set G)"
    by (simp add: contains_def)
  have "find_split (x div d) (x mod d) d (map (\<lambda>c. uint c - x div d) G) = None"
    if mem: "x div d \<in> uint ` set G"
  proof (rule ccontr)
    assume "find_split (x div d) (x mod d) d (map (\<lambda>c. uint c - x div d) G) \<noteq> None"
    then obtain vs where "find_split (x div d) (x mod d) d (map (\<lambda>c. uint c - x div d) G) = Some vs"
      by auto
    then obtain split ol
      where cand: "(split, ol) \<in> set (candidates (map (\<lambda>c. uint c - x div d) G) d)"
        and s: "sum_list ol = x mod d"
      by (rule find_split_Some)
    from candidates_elem [OF cand] s
    have "1 \<le> length ol \<and> int (length ol) < d
          \<and> set ol \<subseteq> (\<lambda>c. uint c - x div d) ` set G \<and> sum_list ol = x mod d"
      by simp
    with mem assms(3) show False by blast
  qed
  with False assms(1) nm c show ?thesis
    by (auto simp: attempt_def Let_def)
qed

lemma sum_list_zeros: "set ol \<subseteq> {0 :: int} \<Longrightarrow> sum_list ol = 0"
  by (induction ol) auto

text \<open>
  Claim C7. Let \<open>x \<ge> 0\<close> and \<open>div \<ge> 1\<close> be such that there is neither an equal split
  (\<open>x % div = 0\<close> with \<open>x // div\<close> a good byte) nor an offset split (\<open>x // div\<close> a good
  byte and between 1 and \<open>div - 1\<close> offsets \<open>c - x // div\<close> of good bytes \<open>c\<close> that sum
  to \<open>x % div\<close>). Then a call that has not used the retry gives what the one retry
  with \<open>x + 256\<close> and \<open>carry + 1\<close> gives, which cannot retry again, and a call that
  has used it raises \<^verbatim>\<open>DivisionFailed\<close>. The global \<^verbatim>\<open>mod\<close> is bound to a value other
  than 0 here; unbound, the test of line 53 raises \<^verbatim>\<open>NameError\<close> first.
\<close>

theorem check_div_carry_retry:
  assumes "1 \<le> d" and "0 \<le> x"
    and "\<not> (x mod d = 0 \<and> x div d \<in> uint ` set G)"
    and "\<not> (x div d \<in> uint ` set G \<and>
            (\<exists>ol. 1 \<le> length ol \<and> int (length ol) < d
                  \<and> set ol \<subseteq> (\<lambda>c. uint c - x div d) ` set G \<and> sum_list ol = x mod d))"
  shows "check_div Nonzero x d G c False = check_div Nonzero (x + 256) d G (c + 1) True
         \<and> check_div Nonzero x d G c True = Inl DivisionFailed"
proof (cases "x div d \<ge> 256")
  case False
  with attempt_Nonzero_no_split [OF assms(1,2,4)]
  have "attempt Nonzero x d G = Inr None" by simp
  then show ?thesis
    by (simp add: check_div_attempt [of Nonzero x d G c False]
          check_div_attempt [of Nonzero x d G c True])
next
  case True
  with attempt_Nonzero_no_split [OF assms(1,2,4)]
  have a: "attempt Nonzero x d G = Inl DivisionFailed" by simp
  from assms(1) have "x div d \<le> (x + 256) div d" by (intro zdiv_mono1) simp_all
  with True assms(1) have "attempt Nonzero (x + 256) d G = Inl DivisionFailed"
    by (simp add: attempt_def)
  with a show ?thesis
    by (simp add: check_div_attempt [of Nonzero x d G c False]
          check_div_attempt [of Nonzero x d G c True]
          check_div_attempt [of Nonzero "x + 256" d G "c + 1" True])
qed

theorem check_div_carry_retry_witness:
  "check_div Nonzero 0 4 [0x33, 0x40] 0 False = check_div Nonzero (0 + 256) 4 [0x33, 0x40] (0 + 1) True
   \<and> check_div Nonzero (0 + 256) 4 [0x33, 0x40] (0 + 1) True = Inr (1, [64, 64, 64, 64])
   \<and> check_div Nonzero 0x41 2 [0x20] 0 False = check_div Nonzero (0x41 + 256) 2 [0x20] (0 + 1) True
   \<and> check_div Nonzero 0x41 2 [0x20] 0 True = Inl DivisionFailed"
proof -
  have a1: "\<not> ((0::int) mod 4 = 0 \<and> (0::int) div 4 \<in> uint ` set [0x33, 0x40 :: 8 word])"
    by simp
  have a2: "\<not> ((0::int) div 4 \<in> uint ` set [0x33, 0x40 :: 8 word] \<and>
            (\<exists>ol. 1 \<le> length ol \<and> int (length ol) < 4
                  \<and> set ol \<subseteq> (\<lambda>c. uint c - 0 div 4) ` set [0x33, 0x40 :: 8 word]
                  \<and> sum_list ol = 0 mod 4))"
    by simp
  have b1: "\<not> ((0x41::int) mod 2 = 0 \<and> (0x41::int) div 2 \<in> uint ` set [0x20 :: 8 word])"
    by simp
  have b2: "\<not> ((0x41::int) div 2 \<in> uint ` set [0x20 :: 8 word] \<and>
            (\<exists>ol. 1 \<le> length ol \<and> int (length ol) < 2
                  \<and> set ol \<subseteq> (\<lambda>c. uint c - 0x41 div 2) ` set [0x20 :: 8 word]
                  \<and> sum_list ol = 0x41 mod 2))"
  proof
    assume "(0x41::int) div 2 \<in> uint ` set [0x20 :: 8 word] \<and>
            (\<exists>ol. 1 \<le> length ol \<and> int (length ol) < 2
                  \<and> set ol \<subseteq> (\<lambda>c. uint c - 0x41 div 2) ` set [0x20 :: 8 word]
                  \<and> sum_list ol = 0x41 mod 2)"
    then obtain ol :: "int list" where "set ol \<subseteq> {0}" and "sum_list ol = 1"
      by auto
    with sum_list_zeros [of ol] show False by simp
  qed
  have r: "check_div Nonzero (0 + 256) 4 [0x33, 0x40] (0 + 1) True = Inr (1, [64, 64, 64, 64])"
    by code_simp
  from check_div_carry_retry [of 4 0 "[0x33, 0x40]" 0, OF _ _ a1 a2]
       check_div_carry_retry [of 2 "0x41" "[0x20]" 0, OF _ _ b1 b2] r
  show ?thesis by simp
qed

subsection \<open>Termination of the restart loop and the exceptions that leave it\<close>

lemma restarts_bound:
  "restarts b G max_div X s \<le> nat (mask32 max_div - 1 - div_size s)"
proof (induction b G max_div X s rule: restarts.induct)
  case (1 b G max_div X s)
  show ?case
  proof (cases "encode_bytes b G max_div s (map uint (p32 X))")
    case (Inr s')
    then show ?thesis by (simp add: restarts.simps [of b G max_div X s])
  next
    case (Inl p)
    obtain err s' where p: "p = (err, s')" by (cases p)
    show ?thesis
    proof (cases "\<exists>d. err = BiggerDivision d")
      case False
      with Inl p show ?thesis
        by (cases err) (simp_all add: restarts.simps [of b G max_div X s])
    next
      case True
      then obtain d where err: "err = BiggerDivision d" ..
      from Inl p err have "encode_bytes b G max_div s (map uint (p32 X)) = Inl (BiggerDivision d, s')"
        by simp
      from encode_bytes_BiggerDivision [OF this]
      have d: "div_size s < d" "d < mask32 max_div" by simp_all
      from "1.IH" [OF Inl p [symmetric] err]
      have "restarts b G max_div X (except_BiggerDivision d s') \<le> nat (mask32 max_div - 1 - d)"
        by (simp add: except_BiggerDivision_def)
      moreover from Inl p err
      have "restarts b G max_div X s = Suc (restarts b G max_div X (except_BiggerDivision d s'))"
        by (simp add: restarts.simps [of b G max_div X s])
      ultimately show ?thesis using d by linarith
    qed
  qed
qed

lemma attempt_error_pos:
  assumes "attempt b x d G = Inl e" and "1 \<le> d" and "0 \<le> x"
  shows "e = DivisionFailed \<or> (b = Unbound \<and> e = NameError)"
proof (cases "x div d \<ge> 256")
  case True
  with assms show ?thesis by (simp add: attempt_def)
next
  case False
  from assms(2,3) have "0 \<le> x div d" by (simp add: pos_imp_zdiv_nonneg_iff)
  with False have c: "contains G (x div d) = Inr (x div d \<in> uint ` set G)"
    by (simp add: contains_def)
  show ?thesis
  proof (cases b)
    case Unbound
    with assms False show ?thesis
      by (simp add: attempt_def no_modulos_def mod_eq_0_def)
  next
    case Nonzero
    with assms False c show ?thesis
      by (simp add: attempt_def no_modulos_def mod_eq_0_def Let_def)
  next
    case Zero
    with assms False c show ?thesis
      by (simp add: attempt_def no_modulos_def mod_eq_0_def Let_def split: if_splits bool.splits)
  qed
qed

lemma check_div_error_pos:
  assumes "check_div b x d G c r = Inl e" and "1 \<le> d" and "0 \<le> x"
  shows "e = DivisionFailed \<or> (b = Unbound \<and> e = NameError)"
proof (cases "attempt b x d G")
  case (Inl e')
  with assms(1) have "e = e'" by (subst (asm) check_div_attempt) simp
  with attempt_error_pos [OF Inl assms(2,3)] show ?thesis by simp
next
  case (Inr o1)
  show ?thesis
  proof (cases o1)
    case (Some vs)
    with Inr assms(1) show ?thesis by (subst (asm) check_div_attempt) simp
  next
    case None
    show ?thesis
    proof (cases r)
      case True
      with None Inr assms(1) show ?thesis by (subst (asm) check_div_attempt) simp
    next
      case False
      with None Inr assms(1) have again: "check_div b (x + 256) d G (c + 1) True = Inl e"
        by (subst (asm) check_div_attempt) simp
      show ?thesis
      proof (cases "attempt b (x + 256) d G")
        case (Inl e')
        with again have "e = e'" by (subst (asm) check_div_attempt) simp
        with attempt_error_pos [OF Inl assms(2)] assms(3) show ?thesis by simp
      next
        case (Inr o2)
        with again show ?thesis
          by (subst (asm) check_div_attempt) (simp split: option.splits)
      qed
    qed
  qed
qed

lemma encode_byte_loop_error_pos:
  "encode_byte_loop b x G min_div hi c k = Inl e \<Longrightarrow> 1 \<le> k \<Longrightarrow> 0 \<le> x \<Longrightarrow>
     e = EncodingFailure \<or> (\<exists>d. e = BiggerDivision d) \<or> (b = Unbound \<and> e = NameError)"
proof (induction b x G min_div hi c k rule: encode_byte_loop.induct)
  case (1 b x G min_div hi c d)
  show ?case
  proof (cases "d < hi")
    case False
    with "1.prems"(1) show ?thesis by (simp add: encode_byte_loop.simps [of b x G min_div hi c d])
  next
    case True
    show ?thesis
    proof (cases "check_div b x d G c False")
      case (Inr r)
      with True "1.prems"(1) show ?thesis
        by (cases r) (auto simp: encode_byte_loop.simps [of b x G min_div hi c d] split: if_splits)
    next
      case (Inl err)
      from check_div_error_pos [OF Inl "1.prems"(2,3)]
      have "err = DivisionFailed \<or> (b = Unbound \<and> err = NameError)" .
      then show ?thesis
      proof
        assume df: "err = DivisionFailed"
        with Inl True "1.prems"(1)
        have "encode_byte_loop b x G min_div hi c (d + 1) = Inl e"
          by (simp add: encode_byte_loop.simps [of b x G min_div hi c d])
        from "1.IH" [OF True Inl df this] "1.prems"(2,3) show ?thesis by simp
      next
        assume u: "b = Unbound \<and> err = NameError"
        with Inl have "check_div b x d G c False = Inl NameError" by simp
        with True "1.prems"(1) have "e = NameError"
          by (simp add: encode_byte_loop.simps [of b x G min_div hi c d])
        with u show ?thesis by simp
      qed
    qed
  qed
qed

lemma encode_byte_error_pos:
  assumes "encode_byte b x G min_div max_div c = Inl e" and "0 \<le> min_div" and "0 \<le> x"
  shows "e = EncodingFailure \<or> (\<exists>d. e = BiggerDivision d) \<or> (b = Unbound \<and> e = NameError)"
proof -
  from assms(1) have "encode_byte_loop b x G min_div (mask32 max_div) c
      (if min_div = 0 then 1 else min_div) = Inl e"
    by (simp add: encode_byte_def)
  moreover from assms(2) have "1 \<le> (if min_div = 0 then 1 else min_div)" by simp
  ultimately show ?thesis using assms(3) by (rule encode_byte_loop_error_pos)
qed

lemma append_values_shape:
  "length vs = length rows \<Longrightarrow> list_all (\<lambda>row. length row = k) rows \<Longrightarrow>
     \<exists>rows'. append_values rows vs = Inr rows' \<and> length rows' = length rows
              \<and> list_all (\<lambda>row. length row = Suc k) rows'"
proof (induction rows vs rule: append_values.induct)
  case (1 rows)
  then show ?case by simp
next
  case (2 v vs)
  then show ?case by simp
next
  case (3 row rows v vs)
  then obtain rows' where "append_values rows vs = Inr rows'" "length rows' = length rows"
    "list_all (\<lambda>row. length row = Suc k) rows'"
    by auto
  with "3.prems" show ?case by simp
qed

lemma encode_bytes_shape:
  "shaped k s \<Longrightarrow>
     (case encode_bytes b G max_div s xs of
        Inr s' \<Rightarrow> shaped (k + length xs) s'
      | Inl (e, s') \<Rightarrow>
          e = EncodingFailure \<or> (\<exists>d. e = BiggerDivision d) \<or> (b = Unbound \<and> e = NameError))"
proof (induction xs arbitrary: s k)
  case Nil
  then show ?case by simp
next
  case (Cons x0 xs)
  let ?x = "(x0 - carry s) mod 256"
  let ?c = "if x0 < carry s then 1 else 0 :: int"
  from Cons.prems have div0: "0 \<le> div_size s" by (simp add: shaped_def)
  have x: "0 \<le> ?x" by simp
  show ?case
  proof (cases "encode_byte b ?x G (div_size s) max_div ?c")
    case (Inl e)
    with encode_byte_error_pos [OF Inl div0 x] show ?thesis
      by (simp add: Let_def)
  next
    case (Inr r)
    obtain c' vs where r: "r = (c', vs)" by (cases r)
    let ?s3 = "if div_size s = 0
               then s\<lparr>carry := c', div_size := int (length vs), encodings := replicate (length vs) []\<rparr>
               else s\<lparr>carry := c'\<rparr>"
    from Inr r encode_byte_length [of b ?x G "div_size s" max_div ?c c' vs] div0
    have len: "0 < length vs" "div_size s \<noteq> 0 \<longrightarrow> int (length vs) = div_size s"
      by simp_all
    from Cons.prems len have s3: "shaped k ?s3"
      by (auto simp: shaped_def list_all_iff)
    from Cons.prems len have "length vs = length (encodings ?s3)"
      by (auto simp: shaped_def)
    with s3 obtain rows where av: "append_values (encodings ?s3) vs = Inr rows"
      and lr: "length rows = length (encodings ?s3)"
      and rows: "list_all (\<lambda>row. length row = Suc k) rows"
      using append_values_shape [of vs "encodings ?s3" k] by (auto simp: shaped_def)
    have step: "encode_bytes b G max_div s (x0 # xs)
        = encode_bytes b G max_div (?s3\<lparr>encodings := rows\<rparr>) xs"
      using Inr r av by (simp add: Let_def split: if_splits)
    from s3 lr rows len have "shaped (Suc k) (?s3\<lparr>encodings := rows\<rparr>)"
      by (auto simp: shaped_def split: if_splits)
    moreover have "k + length (x0 # xs) = Suc k + length xs" by simp
    ultimately show ?thesis
      unfolding step by (simp only: Cons.IH)
  qed
qed


lemma py_bytes_ok:
  fixes G :: bytes
  assumes "set row \<subseteq> uint ` set G"
  shows "py_bytes row = Inr (map word_of_int row)"
proof -
  have "0 \<le> n \<and> n < 256" if "n \<in> set row" for n
  proof -
    from that assms obtain g :: "8 word" where "n = uint g" by auto
    with uint_byte [of g] show ?thesis by simp
  qed
  then show ?thesis by (simp add: py_bytes_def)
qed

lemma u32_ok: "length bs = 4 \<Longrightarrow> \<exists>n. u32 bs = Inr n"
  by (auto simp: u32_def split: list.splits)

lemma encodings_final_ok:
  fixes G :: bytes
  shows "list_all (\<lambda>row. length row = 4) rows \<Longrightarrow> set (concat rows) \<subseteq> uint ` set G \<Longrightarrow>
     \<exists>E. encodings_final rows = Inr E \<and> length E = length rows"
proof (induction rows)
  case Nil
  then show ?case by simp
next
  case (Cons row rows)
  from Cons.prems(2) have "set row \<subseteq> uint ` set G" by auto
  then have pb: "py_bytes row = Inr (map word_of_int row)" by (rule py_bytes_ok)
  from Cons.prems(1) have "length (map word_of_int row :: bytes) = 4" by simp
  then obtain n where n: "u32 (map word_of_int row) = Inr n" using u32_ok by blast
  from Cons.prems have "list_all (\<lambda>row. length row = 4) rows" "set (concat rows) \<subseteq> uint ` set G"
    by auto
  from Cons.IH [OF this] obtain E where "encodings_final rows = Inr E" "length E = length rows"
    by blast
  with pb n show ?case by simp
qed

lemma encode_chunk_loop_result:
  "shaped 0 s \<Longrightarrow> good_rows G s \<Longrightarrow>
     (\<exists>E. encode_chunk_loop b G max_div X s = Inr E \<and> E \<noteq> [])
     \<or> encode_chunk_loop b G max_div X s = Inl EncodingFailure
     \<or> (b = Unbound \<and> encode_chunk_loop b G max_div X s = Inl NameError)"
proof (induction b G max_div X s rule: encode_chunk_loop.induct)
  case (1 b G max_div X s)
  have len: "length (map uint (p32 X)) = 4" by (simp add: p32_def)
  show ?case
  proof (cases "encode_bytes b G max_div s (map uint (p32 X))")
    case (Inr s')
    with encode_bytes_shape [where b = b and G = G and max_div = max_div and xs = "map uint (p32 X)",
           OF "1.prems"(1)] len
    have sh: "shaped 4 s'" by simp
    from encode_bytes_good_rows [OF Inr "1.prems"(2)]
    have "set (concat (encodings s')) \<subseteq> uint ` set G" by (simp add: good_rows_def)
    with sh obtain E where E: "encodings_final (encodings s') = Inr E"
      "length E = length (encodings s')"
      using encodings_final_ok [of "encodings s'" G] by (auto simp: shaped_def)
    from sh have "encodings s' \<noteq> []" by (auto simp: shaped_def)
    with E Inr show ?thesis
      by (auto simp: encode_chunk_loop.simps [of b G max_div X s])
  next
    case (Inl p)
    obtain err s' where p: "p = (err, s')" by (cases p)
    from encode_bytes_shape [where b = b and G = G and max_div = max_div and xs = "map uint (p32 X)",
           OF "1.prems"(1)] Inl p
    have "err = EncodingFailure \<or> (\<exists>d. err = BiggerDivision d) \<or> (b = Unbound \<and> err = NameError)"
      by simp
    then consider "err = EncodingFailure" | d where "err = BiggerDivision d"
      | "b = Unbound" "err = NameError" by blast
    then show ?thesis
    proof cases
      case 1
      with Inl p show ?thesis by (simp add: encode_chunk_loop.simps [of b G max_div X s])
    next
      case 3
      from Inl p 3(2) have "encode_chunk_loop b G max_div X s = Inl NameError"
        by (simp add: encode_chunk_loop.simps [of b G max_div X s])
      with 3 show ?thesis by simp
    next
      case 2
      with Inl p have "encode_bytes b G max_div s (map uint (p32 X)) = Inl (BiggerDivision d, s')"
        by simp
      from encode_bytes_BiggerDivision [OF this] "1.prems"(1) have "0 < d"
        by (simp add: shaped_def)
      then have sh: "shaped 0 (except_BiggerDivision d s')"
        by (simp add: shaped_def except_BiggerDivision_def list_all_iff)
      have gr: "good_rows G (except_BiggerDivision d s')"
        by (simp add: good_rows_def except_BiggerDivision_def)
      from Inl p 2 have "encode_chunk_loop b G max_div X s
          = encode_chunk_loop b G max_div X (except_BiggerDivision d s')"
        by (simp add: encode_chunk_loop.simps [of b G max_div X s])
      with "1.IH" [OF Inl p [symmetric] 2 sh gr] show ?thesis by simp
    qed
  qed
qed

text \<open>
  Claim C8. \<^verbatim>\<open>encode_chunk\<close> terminates on every input with a positive \<open>max_div\<close>:
  whenever a pass raises \<^verbatim>\<open>BiggerDivision(d)\<close>, \<open>d\<close> is above the divisor the pass
  started with and below \<open>max_div\<close>, and \<open>d\<close> is the divisor of the next pass; so the
  handler runs fewer than \<open>max_div\<close> times (the loop body at most \<open>max_div\<close> times),
  and the call returns an encoding or raises \<^verbatim>\<open>EncodingFailure\<close>. (\<^verbatim>\<open>NameError\<close> can
  leave the call only where the global \<^verbatim>\<open>mod\<close> is unbound.) The functions
  \<open>encode_chunk_loop\<close> and \<open>restarts\<close> are total: their termination is proved with the
  measure \<open>(max_div & 0xFFFFFFFF) - div\<close>.
\<close>

theorem encode_chunk_terminates:
  assumes "0 < max_div"
  shows "int (restarts b G max_div (mask32 (i - c)) \<lparr>encodings = [], carry = 0, div_size = 0\<rparr>) + 1
           \<le> max_div
         \<and> ((\<exists>E. encode_chunk b c G i max_div = Inr E)
            \<or> encode_chunk b c G i max_div = Inl EncodingFailure
            \<or> (b = Unbound \<and> encode_chunk b c G i max_div = Inl NameError))
         \<and> (\<forall>s xs d s'. encode_bytes b G max_div s xs = Inl (BiggerDivision d, s')
               \<longrightarrow> div_size s < d \<and> d < max_div \<and> div_size (except_BiggerDivision d s') = d)"
proof (intro conjI allI impI)
  let ?s0 = "\<lparr>encodings = [], carry = 0, div_size = 0\<rparr>"
  from assms have hi: "mask32 max_div \<le> max_div"
    by (simp add: mask32_def zmod_le_nonneg_dividend)
  have "restarts b G max_div (mask32 (i - c)) ?s0 \<le> nat (mask32 max_div - 1 - div_size ?s0)"
    by (rule restarts_bound)
  with hi assms show "int (restarts b G max_div (mask32 (i - c)) ?s0) + 1 \<le> max_div"
    by simp
  have "shaped 0 ?s0" "good_rows G ?s0"
    by (simp_all add: shaped_def good_rows_def)
  from encode_chunk_loop_result [OF this, of b max_div "mask32 (i - c)"]
  show "(\<exists>E. encode_chunk b c G i max_div = Inr E)
        \<or> encode_chunk b c G i max_div = Inl EncodingFailure
        \<or> (b = Unbound \<and> encode_chunk b c G i max_div = Inl NameError)"
    by (auto simp: encode_chunk_def)
next
  fix s xs d s'
  assume "encode_bytes b G max_div s xs = Inl (BiggerDivision d, s')"
  from encode_bytes_BiggerDivision [OF this] assms
  have "div_size s < d" "d < mask32 max_div" by simp_all
  moreover from assms have "mask32 max_div \<le> max_div"
    by (simp add: mask32_def zmod_le_nonneg_dividend)
  ultimately show "div_size s < d" "d < max_div" by simp_all
  show "div_size (except_BiggerDivision d s') = d"
    by (simp add: except_BiggerDivision_def)
qed

theorem encode_chunk_terminates_witness:
  "int (restarts Nonzero [0x33, 0x40] 10 (mask32 (0 - 0)) \<lparr>encodings = [], carry = 0, div_size = 0\<rparr>) + 1
     \<le> 10
   \<and> restarts Nonzero [0x33, 0x40] 10 (mask32 (0 - 0)) \<lparr>encodings = [], carry = 0, div_size = 0\<rparr> = 1
   \<and> (\<exists>E. encode_chunk Nonzero 0 [0x33, 0x40] 0 10 = Inr E)
   \<and> encode_chunk Nonzero 0x41414141 [0x41] 0 10 = Inl EncodingFailure"
proof -
  have p: "(0::int) < 10" by simp
  have r: "restarts Nonzero [0x33, 0x40] 10 (mask32 (0 - 0)) \<lparr>encodings = [], carry = 0, div_size = 0\<rparr> = 1"
    by code_simp
  have e: "encode_chunk Nonzero 0 [0x33, 0x40] 0 10
     = Inr [0x33333333, 0x33333333, 0x33333333, 0x33333333, 0x33333333]"
    by code_simp
  have f: "encode_chunk Nonzero 0x41414141 [0x41] 0 10 = Inl EncodingFailure"
    by code_simp
  from encode_chunk_terminates [OF p, of Nonzero "[0x33, 0x40]" 0 0] r e f
  show ?thesis by simp
qed

subsection \<open>The sum of the components\<close>

lemma le_value_snoc: "le_value (row @ [v]) = le_value row + 256 ^ length row * v"
  by (induction row) (simp_all add: algebra_simps)

lemma append_values_total:
  "append_values rows vs = Inr rows' \<Longrightarrow> length vs = length rows \<Longrightarrow>
   list_all (\<lambda>row. length row = k) rows \<Longrightarrow>
     sum_list (map le_value rows') = sum_list (map le_value rows) + 256 ^ k * sum_list vs"
proof (induction rows vs arbitrary: rows' rule: append_values.induct)
  case (1 rows)
  then show ?case by simp
next
  case (2 v vs)
  then show ?case by simp
next
  case (3 row rows v vs)
  then obtain rs where rs: "append_values rows vs = Inr rs" and r': "rows' = (row @ [v]) # rs"
    by (auto split: sum.splits)
  from "3.prems" have "length vs = length rows" "list_all (\<lambda>row. length row = k) rows" "length row = k"
    by simp_all
  with "3.IH" [OF rs] r' show ?case
    by (simp add: le_value_snoc algebra_simps)
qed

lemma encode_byte_sum:
  assumes "encode_byte b x G min_div max_div c = Inr (c', vs)" and "b \<noteq> Zero"
  shows "sum_list vs = x + 256 * (c' - c) \<and> (c' = c \<or> c' = c + 1)"
proof -
  from assms(1) obtain d where "check_div b x d G c False = Inr (c', vs)"
    by (rule encode_byte_success)
  from check_div_values [OF this] assms(2) show ?thesis by auto
qed

lemma encode_bytes_total:
  "encode_bytes b G max_div s xs = Inr s' \<Longrightarrow> shaped k s \<Longrightarrow> 0 \<le> carry s \<Longrightarrow> carry s \<le> 2 \<Longrightarrow>
   b \<noteq> Zero \<Longrightarrow> list_all (\<lambda>x. 0 \<le> x \<and> x < 256) xs \<Longrightarrow>
     sum_list (map le_value (encodings s'))
       = sum_list (map le_value (encodings s)) + 256 ^ k * (le_value xs - carry s)
         + 256 ^ (k + length xs) * carry s'
     \<and> 0 \<le> carry s' \<and> carry s' \<le> 2"
proof (induction xs arbitrary: s k)
  case Nil
  then show ?case by simp
next
  case (Cons x0 xs)
  let ?x = "(x0 - carry s) mod 256"
  let ?c = "if x0 < carry s then 1 else 0 :: int"
  from Cons.prems(1) obtain c' vs where eb: "encode_byte b ?x G (div_size s) max_div ?c = Inr (c', vs)"
    by (auto simp: Let_def split: sum.splits)
  let ?s3 = "if div_size s = 0
             then s\<lparr>carry := c', div_size := int (length vs), encodings := replicate (length vs) []\<rparr>
             else s\<lparr>carry := c'\<rparr>"
  from Cons.prems(1) eb obtain rows where av: "append_values (encodings ?s3) vs = Inr rows"
    and rest: "encode_bytes b G max_div (?s3\<lparr>encodings := rows\<rparr>) xs = Inr s'"
    by (auto simp: Let_def split: sum.splits if_splits)
  from Cons.prems(2) have div0: "0 \<le> div_size s" by (simp add: shaped_def)
  from encode_byte_length [OF eb div0]
  have len: "0 < length vs" "div_size s \<noteq> 0 \<longrightarrow> int (length vs) = div_size s" by simp_all
  from Cons.prems(2) len have s3: "shaped k ?s3"
    by (auto simp: shaped_def list_all_iff)
  from Cons.prems(2) len have lv: "length vs = length (encodings ?s3)"
    by (auto simp: shaped_def)
  from s3 have rk: "list_all (\<lambda>row. length row = k) (encodings ?s3)" by (simp add: shaped_def)
  from append_values_shape [OF lv rk] av
  have lr: "length rows = length (encodings ?s3)" and rows: "list_all (\<lambda>row. length row = Suc k) rows"
    by simp_all
  from s3 lr rows len have sh': "shaped (Suc k) (?s3\<lparr>encodings := rows\<rparr>)"
    by (auto simp: shaped_def split: if_splits)
  from Cons.prems(6) have x0: "0 \<le> x0" "x0 < 256" and xs: "list_all (\<lambda>x. 0 \<le> x \<and> x < 256) xs"
    by simp_all
  have x: "?x = x0 - carry s + 256 * ?c"
  proof (cases "x0 < carry s")
    case True
    with x0 Cons.prems(3,4) have "0 \<le> x0 - carry s + 256" "x0 - carry s + 256 < 256" by simp_all
    then have "(x0 - carry s + 256) mod 256 = x0 - carry s + 256" by (rule mod_pos_pos_trivial)
    with True show ?thesis by simp
  next
    case False
    with x0 Cons.prems(3,4) have "0 \<le> x0 - carry s" "x0 - carry s < 256" by simp_all
    then have "(x0 - carry s) mod 256 = x0 - carry s" by (rule mod_pos_pos_trivial)
    with False show ?thesis by simp
  qed
  from encode_byte_sum [OF eb Cons.prems(5)] x
  have sum: "sum_list vs = x0 - carry s + 256 * c'" and c': "c' = ?c \<or> c' = ?c + 1"
    by (simp_all add: algebra_simps)
  from c' have c'r: "0 \<le> c'" "c' \<le> 2" by (auto split: if_splits)
  have old: "sum_list (map le_value (encodings ?s3)) = sum_list (map le_value (encodings s))"
  proof (cases "div_size s = 0")
    case True
    with Cons.prems(2) have "encodings s = []" by (simp add: shaped_def)
    with True show ?thesis by (simp add: sum_list_replicate)
  next
    case False
    then show ?thesis by simp
  qed
  from append_values_total [OF av lv rk] old sum
  have tot: "sum_list (map le_value rows)
      = sum_list (map le_value (encodings s)) + 256 ^ k * (x0 - carry s + 256 * c')"
    by simp
  have c3: "carry (?s3\<lparr>encodings := rows\<rparr>) = c'" by simp
  from Cons.IH [OF rest sh' _ _ Cons.prems(5) xs] c'r c3
  have "sum_list (map le_value (encodings s'))
       = sum_list (map le_value rows) + 256 ^ Suc k * (le_value xs - c')
         + 256 ^ (Suc k + length xs) * carry s'"
    and cs': "0 \<le> carry s'" "carry s' \<le> 2"
    by simp_all
  with tot have "sum_list (map le_value (encodings s'))
       = sum_list (map le_value (encodings s)) + 256 ^ k * (le_value (x0 # xs) - carry s)
         + 256 ^ (k + length (x0 # xs)) * carry s'"
    by (simp add: algebra_simps)
  with cs' show ?case by simp
qed


lemma encodings_final_value:
  "encodings_final rows = Inr E \<Longrightarrow> E = map le_value rows"
proof (induction rows arbitrary: E)
  case Nil
  then show ?case by simp
next
  case (Cons row rows)
  from Cons.prems obtain bs n ns where bs: "py_bytes row = Inr bs" and n: "u32 bs = Inr n"
    and ns: "encodings_final rows = Inr ns" and E: "E = n # ns"
    by (auto split: sum.splits)
  from bs have range: "\<forall>r \<in> set row. 0 \<le> r \<and> r < 256" and bs': "bs = map word_of_int row"
    by (simp_all add: py_bytes_def split: if_splits)
  from n bs' obtain r0 r1 r2 r3 where row: "row = [r0, r1, r2, r3]"
    by (auto simp: u32_def split: list.splits)
  have u: "uint (word_of_int r :: 8 word) = r" if "r \<in> set row" for r
    using that range by (simp add: uint_word_of_int take_bit_eq_mod)
  from n bs' row have "n = uint (word_of_int r0 :: 8 word) + 256 * uint (word_of_int r1 :: 8 word)
      + 65536 * uint (word_of_int r2 :: 8 word) + 16777216 * uint (word_of_int r3 :: 8 word)"
    by (simp add: u32_def)
  with u row have "n = le_value row" by simp
  with Cons.IH [OF ns] E show ?case by simp
qed

lemma bytes_recombine:
  fixes X :: int
  assumes "X = m0 + 256 * q1" and "q1 = m1 + 256 * q2" and "q2 = m2 + 256 * q3"
  shows "X = m0 + 256 * (m1 + 256 * (m2 + 256 * q3))"
  using assms by simp

lemma le_value_p32:
  assumes "0 \<le> X" and "X < 2 ^ 32"
  shows "le_value (map uint (p32 X)) = X"
proof -
  have u: "uint (word_of_int n :: 8 word) = n mod 256" for n
    by (simp add: uint_word_of_int take_bit_eq_mod)
  have a: "X = X mod 256 + 256 * (X div 256)" by simp
  have b: "X div 256 = X div 256 mod 256 + 256 * (X div 256 div 256)" by simp
  have c: "X div 256 div 256 = X div 256 div 256 mod 256 + 256 * (X div 256 div 256 div 256)"
    by simp
  have e2: "X div 65536 = X div 256 div 256"
    using zdiv_zmult2_eq [of 256 X 256] by simp
  have e3: "X div 16777216 = X div 256 div 256 div 256"
    using zdiv_zmult2_eq [of 256 "X div 256" 256] zdiv_zmult2_eq [of 65536 X 256] e2 by simp
  from assms have "X div 16777216 < 256" "0 \<le> X div 16777216" by simp_all
  then have "X div 16777216 mod 256 = X div 16777216" by simp
  then have d: "X div 256 div 256 div 256 mod 256 = X div 256 div 256 div 256"
    unfolding e3 .
  have "le_value (map uint (p32 X))
      = X mod 256 + 256 * (X div 256 mod 256 + 256 * (X div 65536 mod 256 + 256 * (X div 16777216 mod 256)))"
    by (simp add: p32_def u)
  also have "\<dots> = X mod 256 + 256 * (X div 256 mod 256
      + 256 * (X div 256 div 256 mod 256 + 256 * (X div 256 div 256 div 256)))"
    unfolding e2 e3 d ..
  also have "\<dots> = X"
    by (rule bytes_recombine [OF a b c, symmetric])
  finally show ?thesis .
qed

lemma p32_bytes: "list_all (\<lambda>x. 0 \<le> x \<and> x < 256) (map uint (p32 X))"
  by (simp add: p32_def uint_byte)

lemma encode_bytes_carry_at_exception:
  "encode_bytes b G max_div s xs = Inl (BiggerDivision d, s') \<Longrightarrow> carry s' = 0 \<or> carry s' = 1"
proof (induction xs arbitrary: s)
  case Nil
  then show ?case by simp
next
  case (Cons x0 xs)
  let ?x = "(x0 - carry s) mod 256"
  let ?s1 = "s\<lparr>carry := (if x0 < carry s then 1 else 0)\<rparr>"
  show ?case
  proof (cases "encode_byte b ?x G (div_size s) max_div (carry ?s1)")
    case (Inl err)
    with Cons.prems have "s' = ?s1" by (simp add: Let_def)
    then show ?thesis by simp
  next
    case (Inr r)
    obtain c' vs where r: "r = (c', vs)" by (cases r)
    let ?s3 = "if div_size s = 0
               then s\<lparr>carry := c', div_size := int (length vs), encodings := replicate (length vs) []\<rparr>
               else s\<lparr>carry := c'\<rparr>"
    show ?thesis
    proof (cases "append_values (encodings ?s3) vs")
      case (Inl err)
      with Cons.prems Inr r have "err = BiggerDivision d"
        by (simp add: Let_def split: if_splits)
      with append_values_error [OF Inl] show ?thesis by simp
    next
      case (Inr rows)
      with Cons.prems \<open>encode_byte b ?x G (div_size s) max_div (carry ?s1) = Inr r\<close> r
      have "encode_bytes b G max_div (?s3\<lparr>encodings := rows\<rparr>) xs = Inl (BiggerDivision d, s')"
        by (simp add: Let_def split: if_splits)
      from Cons.IH [OF this] show ?thesis .
    qed
  qed
qed


lemma pass_sum:
  assumes "encode_bytes b G max_div s (map uint (p32 X)) = Inr s'"
    and "shaped 0 s" and "carry s = 0 \<or> carry s = 1" and "b \<noteq> Zero"
    and "0 \<le> X" and "X < 2 ^ 32" and "encodings_final (encodings s') = Inr E"
  shows "mask32 (sum_list E) = mask32 (X - carry s)"
proof -
  have z: "sum_list (map le_value rows) = 0" if "list_all (\<lambda>row. length row = 0) rows" for rows
    using that by (induction rows) simp_all
  from assms(2) have "sum_list (map le_value (encodings s)) = 0"
    by (intro z) (simp add: shaped_def)
  moreover from assms(3) have "0 \<le> carry s" "carry s \<le> 2" by auto
  moreover have "length (map uint (p32 X)) = 4" by (simp add: p32_def)
  ultimately have "sum_list (map le_value (encodings s'))
      = (X - carry s) + 2 ^ 32 * carry s'"
    using encode_bytes_total [OF assms(1,2) _ _ assms(4) p32_bytes] le_value_p32 [OF assms(5,6)]
    by simp
  with encodings_final_value [OF assms(7)] show ?thesis
    by (simp add: mask32_def)
qed

lemma encode_chunk_loop_sum:
  "encode_chunk_loop b G max_div X s = Inr E \<Longrightarrow> shaped 0 s \<Longrightarrow> carry s = 0 \<or> carry s = 1 \<Longrightarrow>
   b \<noteq> Zero \<Longrightarrow> 0 \<le> X \<Longrightarrow> X < 2 ^ 32 \<Longrightarrow>
     E \<noteq> [] \<and> (mask32 (sum_list E) = mask32 X \<or> mask32 (sum_list E) = mask32 (X - 1))"
proof (induction b G max_div X s rule: encode_chunk_loop.induct)
  case (1 b G max_div X s)
  show ?case
  proof (cases "encode_bytes b G max_div s (map uint (p32 X))")
    case (Inr s')
    with "1.prems"(1) have fin: "encodings_final (encodings s') = Inr E"
      by (simp add: encode_chunk_loop.simps [of b G max_div X s])
    have "length (map uint (p32 X)) = 4" by (simp add: p32_def)
    with encode_bytes_shape [where b = b and G = G and max_div = max_div and xs = "map uint (p32 X)",
           OF "1.prems"(2)] Inr
    have "shaped 4 s'" by simp
    then have "encodings s' \<noteq> []" by (auto simp: shaped_def)
    with encodings_final_value [OF fin] have ne: "E \<noteq> []" by simp
    from pass_sum [OF Inr "1.prems"(2,3,4,5,6) fin] "1.prems"(3) ne show ?thesis by auto
  next
    case (Inl p)
    obtain err s' where p: "p = (err, s')" by (cases p)
    with Inl "1.prems"(1) obtain d where err: "err = BiggerDivision d"
      and again: "encode_chunk_loop b G max_div X (except_BiggerDivision d s') = Inr E"
      by (cases err) (simp_all add: encode_chunk_loop.simps [of b G max_div X s])
    from Inl p err have raised: "encode_bytes b G max_div s (map uint (p32 X)) = Inl (BiggerDivision d, s')"
      by simp
    from encode_bytes_BiggerDivision [OF raised] "1.prems"(2) have "0 < d"
      by (simp add: shaped_def)
    then have sh: "shaped 0 (except_BiggerDivision d s')"
      by (simp add: shaped_def except_BiggerDivision_def list_all_iff)
    from encode_bytes_carry_at_exception [OF raised]
    have c: "carry (except_BiggerDivision d s') = 0 \<or> carry (except_BiggerDivision d s') = 1"
      by (simp add: except_BiggerDivision_def)
    from "1.IH" [OF Inl p [symmetric] err again sh c "1.prems"(4,5,6)] show ?thesis .
  qed
qed

lemma mask32_range: "0 \<le> mask32 n \<and> mask32 n < 2 ^ 32"
  by (simp add: mask32_def)

text \<open>
  What does hold of the round trip, where the global \<^verbatim>\<open>mod\<close> is not 0 (bound to 0, the
  test of line 53 accepts splits that do not sum to \<open>x\<close>): the value decoded is the
  chunk, or the chunk plus the carry left over at the last restart; and it is the
  chunk when there was no restart.
\<close>

theorem round_trip_up_to_carry:
  assumes "encode_chunk b c G i max_div = Inr E" and "b \<noteq> Zero"
  shows "decode E i = mask32 c \<or> decode E i = mask32 (c + 1)"
proof -
  let ?X = "mask32 (i - c)"
  let ?s0 = "\<lparr>encodings = [], carry = 0, div_size = 0\<rparr>"
  from assms(1) have loop: "encode_chunk_loop b G max_div ?X ?s0 = Inr E"
    by (simp add: encode_chunk_def)
  have "shaped 0 ?s0" "carry ?s0 = 0 \<or> carry ?s0 = 1" by (simp_all add: shaped_def)
  from encode_chunk_loop_sum [OF loop this assms(2)] mask32_range [of "i - c"]
  have ne: "E \<noteq> []"
    and s: "mask32 (sum_list E) = mask32 ?X \<or> mask32 (sum_list E) = mask32 (?X - 1)"
    by simp_all
  from ne have d: "decode E i = mask32 (i - sum_list E)" by (rule decode_nonempty)
  have sub: "mask32 (i - sum_list E) = mask32 (i - mask32 (sum_list E))"
    by (simp add: mask32_def mod_diff_right_eq)
  from s show ?thesis
  proof
    assume "mask32 (sum_list E) = mask32 ?X"
    then have "mask32 (i - sum_list E) = mask32 (i - mask32 ?X)" by (simp add: sub)
    also have "\<dots> = mask32 (i - mask32 (i - c))" by (simp add: mask32_def)
    also have "\<dots> = mask32 (i - (i - c))" by (simp add: mask32_def mod_diff_right_eq)
    finally show ?thesis using d by simp
  next
    assume "mask32 (sum_list E) = mask32 (?X - 1)"
    then have "mask32 (i - sum_list E) = mask32 (i - mask32 (?X - 1))" by (simp add: sub)
    also have "\<dots> = mask32 (i - (?X - 1))" by (simp add: mask32_def mod_diff_right_eq)
    also have "\<dots> = mask32 ((i + 1) - mask32 (i - c))" by (simp add: algebra_simps)
    also have "\<dots> = mask32 ((i + 1) - (i - c))" by (simp add: mask32_def mod_diff_right_eq)
    finally show ?thesis using d by (simp add: algebra_simps)
  qed
qed

theorem round_trip_without_restart:
  assumes "encode_chunk b c G i max_div = Inr E" and "b \<noteq> Zero"
    and "restarts b G max_div (mask32 (i - c)) \<lparr>encodings = [], carry = 0, div_size = 0\<rparr> = 0"
  shows "decode E i = mask32 c"
proof -
  let ?X = "mask32 (i - c)"
  let ?s0 = "\<lparr>encodings = [], carry = 0, div_size = 0\<rparr>"
  from assms(1) have loop: "encode_chunk_loop b G max_div ?X ?s0 = Inr E"
    by (simp add: encode_chunk_def)
  have sh: "shaped 0 ?s0" "carry ?s0 = 0 \<or> carry ?s0 = 1" by (simp_all add: shaped_def)
  from encode_chunk_loop_sum [OF loop sh assms(2)] mask32_range [of "i - c"]
  have ne: "E \<noteq> []" by simp
  obtain s' where pass: "encode_bytes b G max_div ?s0 (map uint (p32 ?X)) = Inr s'"
    and fin: "encodings_final (encodings s') = Inr E"
  proof (cases "encode_bytes b G max_div ?s0 (map uint (p32 ?X))")
    case (Inr s')
    with loop have "encodings_final (encodings s') = Inr E"
      by (simp add: encode_chunk_loop.simps [of b G max_div ?X ?s0])
    with Inr that show ?thesis by blast
  next
    case (Inl p)
    obtain err s' where p: "p = (err, s')" by (cases p)
    with Inl loop obtain d where "err = BiggerDivision d"
      by (cases err) (simp_all add: encode_chunk_loop.simps [of b G max_div ?X ?s0])
    with Inl p assms(3) show ?thesis
      by (simp add: restarts.simps [of b G max_div ?X ?s0])
  qed
  from pass_sum [OF pass sh assms(2) _ _ fin] mask32_range [of "i - c"]
  have "mask32 (sum_list E) = mask32 ?X" by simp
  moreover from ne have "decode E i = mask32 (i - sum_list E)" by (rule decode_nonempty)
  moreover have "mask32 (i - sum_list E) = mask32 (i - mask32 (sum_list E))"
    by (simp add: mask32_def mod_diff_right_eq)
  ultimately have "decode E i = mask32 (i - mask32 ?X)" by simp
  also have "\<dots> = mask32 (i - mask32 (i - c))" by (simp add: mask32_def)
  also have "\<dots> = mask32 (i - (i - c))" by (simp add: mask32_def mod_diff_right_eq)
  finally show ?thesis by simp
qed

subsection \<open>The carry is not reset when the loop restarts\<close>

text \<open>
  With the good bytes \<open>0x33\<close> and \<open>0x40\<close> and \<open>X = 0\<close>, byte 0 is solved by borrowing
  (\<open>256 = 4 * 0x40\<close>, carry 1), byte 1 becomes \<open>0xFF\<close> with a borrow of its own, and
  \<open>0xFF = 5 * 0x33\<close> needs five components: \<^verbatim>\<open>BiggerDivision(5)\<close>. The handler keeps
  \<open>carry = 1\<close>, so the second pass encodes \<open>0xFF\<close> at byte 0 too.
\<close>

lemma except_BiggerDivision_fields:
  "div_size (except_BiggerDivision d s) = d"
  "encodings (except_BiggerDivision d s) = replicate (nat d) []"
  "carry (except_BiggerDivision d s) = carry s"
  by (simp_all add: except_BiggerDivision_def)

text \<open>After the handler the loop runs a whole pass again, from byte 0 of \<open>X\<close>.\<close>

lemma encode_chunk_loop_restart:
  assumes "encode_bytes b G max_div s (map uint (p32 X)) = Inl (BiggerDivision d, s')"
  shows "encode_chunk_loop b G max_div X s
           = encode_chunk_loop b G max_div X (except_BiggerDivision d s')"
  using assms by (simp add: encode_chunk_loop.simps [of b G max_div X s])

text \<open>
  Claim C4. When the loop of \<^verbatim>\<open>encode_chunk\<close> receives \<^verbatim>\<open>BiggerDivision(d)\<close>, the
  handler sets the divisor to \<open>d\<close> and allocates \<open>d\<close> empty rows, and the next pass
  starts at byte 0. It does not reset the carry: the carry of the interrupted pass
  is kept, here the value 1.
\<close>

theorem restart_keeps_carry:
  "(\<forall>d s. div_size (except_BiggerDivision d s) = d
          \<and> encodings (except_BiggerDivision d s) = replicate (nat d) []
          \<and> carry (except_BiggerDivision d s) = carry s)
   \<and> encode_bytes Nonzero [0x33, 0x40] 10 \<lparr>encodings = [], carry = 0, div_size = 0\<rparr> (map uint (p32 0))
       = Inl (BiggerDivision 5, \<lparr>encodings = [[64], [64], [64], [64]], carry = 1, div_size = 4\<rparr>)
   \<and> except_BiggerDivision 5 \<lparr>encodings = [[64], [64], [64], [64]], carry = 1, div_size = 4\<rparr>
       = \<lparr>encodings = [[], [], [], [], []], carry = 1, div_size = 5\<rparr>"
proof (intro conjI allI)
  show "encode_bytes Nonzero [0x33, 0x40] 10 \<lparr>encodings = [], carry = 0, div_size = 0\<rparr> (map uint (p32 0))
       = Inl (BiggerDivision 5, \<lparr>encodings = [[64], [64], [64], [64]], carry = 1, div_size = 4\<rparr>)"
    by code_simp
  show "except_BiggerDivision 5 \<lparr>encodings = [[64], [64], [64], [64]], carry = 1, div_size = 4\<rparr>
       = \<lparr>encodings = [[], [], [], [], []], carry = 1, div_size = 5\<rparr>"
    by code_simp
qed (simp_all add: except_BiggerDivision_def)

text \<open>
  Claim C1. The round trip \<open>decode E i = c\<close> for every encoding \<open>E\<close> that
  \<^verbatim>\<open>encode_chunk\<close> returns. It fails for \<open>c = i = 0\<close> with the good bytes \<open>0x33\<close> and
  \<open>0x40\<close>: the five components returned sum to \<open>2^32 - 1\<close>, not to \<open>X = 0\<close>, so they
  decode to 1 and \<^verbatim>\<open>verify_chunk\<close> rejects them. (By \<open>round_trip_up_to_carry\<close> the
  value decoded is never further off than this one.)
\<close>

theorem round_trip_fails_after_restart:
  "encode_chunk Nonzero 0 [0x33, 0x40] 0 10
     = Inr [0x33333333, 0x33333333, 0x33333333, 0x33333333, 0x33333333]
   \<and> decode [0x33333333, 0x33333333, 0x33333333, 0x33333333, 0x33333333] 0 = 1
   \<and> \<not> verify_chunk 0 [0x33333333, 0x33333333, 0x33333333, 0x33333333, 0x33333333] 0"
  by code_simp

end
